theory Spec2Isabelle
  imports Main "HOL-Library.Word" "HOL-Library.Log_Nat"
begin

section \<open>JavaScript values used by the parser\<close>

subsection \<open>Numbers\<close>

text \<open>
  A JavaScript Number is an IEEE 754 binary64 value. The model keeps the three special
  values apart and represents every finite double by the rational it denotes; \<open>-0\<close> and
  \<open>+0\<close> are both \<open>Fin 0\<close>, since no operation of \<^verbatim>\<open>parsePPM.ts\<close> that is modelled
  here (\<^verbatim>\<open>*\<close>, \<^verbatim>\<open>+\<close>, \<^verbatim>\<open>!==\<close>, typed-array indexing, the \<^verbatim>\<open>Uint8Array\<close> conversion)
  tells them apart.
\<close>

datatype jsnum = NaN | PInf | NInf | Fin rat

definition pow2 :: "int \<Rightarrow> rat" where
  "pow2 k = (if 0 \<le> k then 2 ^ nat k else 1 / 2 ^ nat (- k))"

definition pow10 :: "int \<Rightarrow> rat" where
  "pow10 k = (if 0 \<le> k then 10 ^ nat k else 1 / 10 ^ nat (- k))"

text \<open>The binary exponent of a positive rational: \<open>2 ^ ilog2 a \<le> a < 2 ^ (ilog2 a + 1)\<close>.\<close>

definition ilog2 :: "rat \<Rightarrow> int" where
  "ilog2 a = (if 1 \<le> a then bitlen \<lfloor>a\<rfloor> - 1 else - bitlen (\<lceil>1 / a\<rceil> - 1))"

definition round_half_even :: "rat \<Rightarrow> int" where
  "round_half_even x =
     (let f = \<lfloor>x\<rfloor>; d = x - of_int f
      in if d < 1 / 2 then f else if 1 / 2 < d then f + 1 else if even f then f else f + 1)"

text \<open>
  Rounding of a mathematical value to the nearest double, ties to even: 53 significant
  bits, the smallest unit \<open>2 ^ -1074\<close>, and overflow to an infinity from \<open>2 ^ 1024\<close> on.
\<close>

definition fl :: "rat \<Rightarrow> jsnum" where
  "fl q =
     (if q = 0 then Fin 0
      else
        let a = \<bar>q\<bar>;
            p = max (ilog2 a - 52) (- 1074);
            m = round_half_even (a / pow2 p);
            v = of_int m * pow2 p
        in if pow2 1024 \<le> v then (if 0 < q then PInf else NInf) else Fin (sgn q * v))"

text \<open>The operators \<^verbatim>\<open>*\<close> and \<^verbatim>\<open>+\<close> on Numbers.\<close>

fun jsmul :: "jsnum \<Rightarrow> jsnum \<Rightarrow> jsnum" where
  "jsmul NaN y = NaN"
| "jsmul x NaN = NaN"
| "jsmul (Fin a) (Fin b) = fl (a * b)"
| "jsmul (Fin a) y = (if a = 0 then NaN else if (0 < a) = (y = PInf) then PInf else NInf)"
| "jsmul x (Fin b) = (if b = 0 then NaN else if (0 < b) = (x = PInf) then PInf else NInf)"
| "jsmul x y = (if x = y then PInf else NInf)"

fun jsadd :: "jsnum \<Rightarrow> jsnum \<Rightarrow> jsnum" where
  "jsadd NaN y = NaN"
| "jsadd x NaN = NaN"
| "jsadd (Fin a) (Fin b) = fl (a + b)"
| "jsadd (Fin a) y = y"
| "jsadd x (Fin b) = x"
| "jsadd x y = (if x = y then x else NaN)"

text \<open>The operator \<^verbatim>\<open>!==\<close> on two Numbers: \<^verbatim>\<open>NaN\<close> differs from everything.\<close>

definition strict_ne :: "jsnum \<Rightarrow> jsnum \<Rightarrow> bool" where
  "strict_ne x y \<longleftrightarrow> x = NaN \<or> y = NaN \<or> x \<noteq> y"

subsection \<open>Strings\<close>

text \<open>
  A JavaScript string is a sequence of UTF-16 code units; \<^verbatim>\<open>undefined\<close> is \<open>None\<close> of a
  \<open>jsstring option\<close>.
\<close>

type_synonym jsstring = "nat list"

definition lit :: "string \<Rightarrow> jsstring" where
  "lit s = map of_char s"

text \<open>The characters matched by \<^verbatim>\<open>\s\<close>, which are also those trimmed by the numeric
  conversions: WhiteSpace and LineTerminator of ECMAScript.\<close>

definition is_ws :: "nat \<Rightarrow> bool" where
  "is_ws c \<longleftrightarrow>
     c = 9 \<or> c = 10 \<or> c = 11 \<or> c = 12 \<or> c = 13 \<or> c = 32 \<or> c = 160 \<or> c = 5760 \<or>
     (8192 \<le> c \<and> c \<le> 8202) \<or> c = 8232 \<or> c = 8233 \<or> c = 8239 \<or> c = 8287 \<or>
     c = 12288 \<or> c = 65279"

text \<open>
  \<^verbatim>\<open>s.split(/\s+/)\<close>: the text before the first whitespace character is a token, the whole
  run of whitespace after it is the separator, and the rest is split in the same way. A
  string that starts or ends with whitespace yields an empty first or last token, and the
  empty string yields one empty token.
\<close>

function split_ws :: "jsstring \<Rightarrow> jsstring list" where
  "split_ws s =
     (case dropWhile (\<lambda>c. \<not> is_ws c) s of
        [] \<Rightarrow> [takeWhile (\<lambda>c. \<not> is_ws c) s]
      | c # rest \<Rightarrow> takeWhile (\<lambda>c. \<not> is_ws c) s # split_ws (dropWhile is_ws rest))"
  by pat_completeness auto
termination
proof (relation "measure length")
  show "wf (measure length)" by simp
next
  fix s :: jsstring and c rest
  assume "dropWhile (\<lambda>c. \<not> is_ws c) s = c # rest"
  then have "length rest < length (dropWhile (\<lambda>c. \<not> is_ws c) s)" by simp
  also have "\<dots> \<le> length s" by (rule length_dropWhile_le)
  finally have "length rest < length s" .
  moreover have "length (dropWhile is_ws rest) \<le> length rest" by (rule length_dropWhile_le)
  ultimately show "(dropWhile is_ws rest, s) \<in> measure length" by simp
qed

declare split_ws.simps [simp del]

text \<open>\<^verbatim>\<open>a.join(sep)\<close> on an array of strings.\<close>

fun join :: "jsstring \<Rightarrow> jsstring list \<Rightarrow> jsstring" where
  "join sep [] = []"
| "join sep [t] = t"
| "join sep (t # ts) = t @ sep @ join sep ts"

text \<open>\<^verbatim>\<open>a[i]\<close> on an array, and array destructuring: \<^verbatim>\<open>undefined\<close> past the end.\<close>

definition item :: "'a list \<Rightarrow> nat \<Rightarrow> 'a option" where
  "item xs i = (if i < length xs then Some (xs ! i) else None)"

text \<open>\<^verbatim>\<open>s.indexOf(pat)\<close>: the index of the first occurrence, or \<open>-1\<close>.\<close>

fun indexOf_from :: "nat \<Rightarrow> jsstring \<Rightarrow> jsstring \<Rightarrow> int" where
  "indexOf_from i pat [] = (if pat = [] then int i else - 1)"
| "indexOf_from i pat (c # cs) =
     (if take (length pat) (c # cs) = pat then int i else indexOf_from (Suc i) pat cs)"

definition indexOf :: "jsstring \<Rightarrow> jsstring \<Rightarrow> int" where
  "indexOf s pat = indexOf_from 0 pat s"

subsection \<open>Numeric conversions of strings\<close>

definition is_digit :: "nat \<Rightarrow> bool" where
  "is_digit c \<longleftrightarrow> 48 \<le> c \<and> c \<le> 57"

definition digit_val :: "nat \<Rightarrow> nat" where
  "digit_val c =
     (if 48 \<le> c \<and> c \<le> 57 then c - 48
      else if 97 \<le> c \<and> c \<le> 122 then c - 87
      else if 65 \<le> c \<and> c \<le> 90 then c - 55
      else 36)"

definition is_radix_digit :: "nat \<Rightarrow> nat \<Rightarrow> bool" where
  "is_radix_digit radix c \<longleftrightarrow> digit_val c < radix"

definition digits_value :: "nat \<Rightarrow> jsstring \<Rightarrow> nat" where
  "digits_value radix ds = foldl (\<lambda>acc c. acc * radix + digit_val c) 0 ds"

text \<open>
  \<^verbatim>\<open>parseInt(x)\<close> with no radix. The argument is converted to a string first
  (\<^verbatim>\<open>undefined\<close> becomes the text \<^verbatim>\<open>undefined\<close>); leading whitespace and one sign are
  skipped; a prefix \<^verbatim>\<open>0x\<close> or \<^verbatim>\<open>0X\<close> selects radix 16; the longest run of digits is read
  and whatever follows it is ignored; no digit at all gives \<^verbatim>\<open>NaN\<close>.
\<close>

definition parseInt_string :: "jsstring \<Rightarrow> jsnum" where
  "parseInt_string s =
     (let s1 = dropWhile is_ws s;
          neg = (take 1 s1 = lit ''-'');
          s2 = (if take 1 s1 = lit ''-'' \<or> take 1 s1 = lit ''+'' then drop 1 s1 else s1);
          hex = (take 2 s2 = lit ''0x'' \<or> take 2 s2 = lit ''0X'');
          radix = (if hex then 16 else 10);
          s3 = (if hex then drop 2 s2 else s2);
          z = takeWhile (is_radix_digit radix) s3
      in if z = [] then NaN
         else fl (if neg then - of_nat (digits_value radix z) else of_nat (digits_value radix z)))"

definition parseInt :: "jsstring option \<Rightarrow> jsnum" where
  "parseInt x = parseInt_string (case x of None \<Rightarrow> lit ''undefined'' | Some s \<Rightarrow> s)"

text \<open>
  \<^verbatim>\<open>Number(s)\<close> on a string (StringToNumber): whitespace is trimmed at both ends, the empty string
  is 0, and the rest must be a whole numeric literal: an unsigned binary, octal or
  hexadecimal integer with its prefix, or a decimal literal with an optional sign, an
  optional fraction and an optional exponent, or a signed \<^verbatim>\<open>Infinity\<close>. Anything else is
  \<^verbatim>\<open>NaN\<close>.
\<close>

definition trim :: "jsstring \<Rightarrow> jsstring" where
  "trim s = rev (dropWhile is_ws (rev (dropWhile is_ws s)))"

definition non_decimal_literal :: "nat \<Rightarrow> jsstring \<Rightarrow> jsnum" where
  "non_decimal_literal radix ds =
     (if ds \<noteq> [] \<and> list_all (is_radix_digit radix) ds then fl (of_nat (digits_value radix ds))
      else NaN)"

definition exponent_part :: "jsstring \<Rightarrow> int option" where
  "exponent_part s =
     (if s = [] then Some 0
      else if take 1 s = lit ''e'' \<or> take 1 s = lit ''E'' then
        (let s1 = drop 1 s;
             neg = (take 1 s1 = lit ''-'');
             ds = (if take 1 s1 = lit ''-'' \<or> take 1 s1 = lit ''+'' then drop 1 s1 else s1)
         in if ds \<noteq> [] \<and> list_all is_digit ds
            then Some (if neg then - int (digits_value 10 ds) else int (digits_value 10 ds))
            else None)
      else None)"

definition unsigned_decimal_literal :: "jsstring \<Rightarrow> rat option" where
  "unsigned_decimal_literal u =
     (let ip = takeWhile is_digit u;
          s1 = dropWhile is_digit u;
          dot = (take 1 s1 = lit ''.'');
          fp = (if dot then takeWhile is_digit (drop 1 s1) else []);
          s2 = (if dot then dropWhile is_digit (drop 1 s1) else s1)
      in if ip = [] \<and> fp = [] then None
         else case exponent_part s2 of
                None \<Rightarrow> None
              | Some e \<Rightarrow> Some (of_nat (digits_value 10 (ip @ fp)) * pow10 (e - int (length fp))))"

definition Number :: "jsstring \<Rightarrow> jsnum" where
  "Number s =
     (let t = trim s
      in if t = [] then Fin 0
         else if take 2 t = lit ''0x'' \<or> take 2 t = lit ''0X'' then non_decimal_literal 16 (drop 2 t)
         else if take 2 t = lit ''0o'' \<or> take 2 t = lit ''0O'' then non_decimal_literal 8 (drop 2 t)
         else if take 2 t = lit ''0b'' \<or> take 2 t = lit ''0B'' then non_decimal_literal 2 (drop 2 t)
         else
           let neg = (take 1 t = lit ''-'');
               u = (if take 1 t = lit ''-'' \<or> take 1 t = lit ''+'' then drop 1 t else t)
           in if u = lit ''Infinity'' then (if neg then NInf else PInf)
              else case unsigned_decimal_literal u of
                     None \<Rightarrow> NaN
                   | Some v \<Rightarrow> fl (if neg then - v else v))"

subsection \<open>Byte buffers\<close>

type_synonym u8 = "8 word"

text \<open>
  The conversion applied to each element by \<^verbatim>\<open>new Uint8Array(numbers)\<close> (ToUint8):
  \<^verbatim>\<open>NaN\<close> and the infinities give 0, a finite value is truncated towards zero and
  reduced modulo 256.
\<close>

definition trunc_int :: "rat \<Rightarrow> int" where
  "trunc_int q = (if 0 \<le> q then \<lfloor>q\<rfloor> else \<lceil>q\<rceil>)"

fun ToUint8 :: "jsnum \<Rightarrow> u8" where
  "ToUint8 (Fin q) = word_of_int (trunc_int q)"
| "ToUint8 x = 0"

text \<open>\<^verbatim>\<open>data.subarray(begin)\<close>: a negative index counts from the end, and the range is
  clamped to the buffer.\<close>

definition subarray :: "u8 list \<Rightarrow> int \<Rightarrow> u8 list" where
  "subarray data begin =
     (let len = int (length data);
          from = (if begin < 0 then max (len + begin) 0 else min begin len)
      in drop (nat from) data)"

text \<open>\<^verbatim>\<open>a[k]\<close> on a \<^verbatim>\<open>Uint8Array\<close> with a Number as key: the element when the key is an
  integer within the array, \<^verbatim>\<open>undefined\<close> otherwise.\<close>

fun typed_get :: "u8 list \<Rightarrow> jsnum \<Rightarrow> u8 option" where
  "typed_get a (Fin q) =
     (if of_int \<lfloor>q\<rfloor> = q \<and> 0 \<le> q \<and> \<lfloor>q\<rfloor> < int (length a) then Some (a ! nat \<lfloor>q\<rfloor>) else None)"
| "typed_get a k = None"

text \<open>
  \<^verbatim>\<open>new TextDecoder().decode(bytes)\<close>: UTF-8 decoding that replaces every ill-formed
  sequence by U+FFFD (one replacement for each maximal ill-formed part, the offending byte
  being read again), drops one leading byte order mark and yields UTF-16 code units. The
  byte after a lead byte must lie between a lower and an upper boundary that depend on the
  lead byte; every later byte of the sequence lies between 0x80 and 0xBF.
\<close>

definition continuation :: "nat \<Rightarrow> nat \<Rightarrow> bool" where
  "continuation lead c \<longleftrightarrow>
     (if lead = 224 then 160 else if lead = 240 then 144 else 128) \<le> c \<and>
     c \<le> (if lead = 237 then 159 else if lead = 244 then 143 else 191)"

definition trailing :: "nat \<Rightarrow> bool" where
  "trailing c \<longleftrightarrow> 128 \<le> c \<and> c \<le> 191"

fun utf8_code_points :: "nat list \<Rightarrow> nat list" where
  "utf8_code_points [] = []"
| "utf8_code_points (lead # bs) =
     (if lead < 128 then lead # utf8_code_points bs
      else if 194 \<le> lead \<and> lead \<le> 223 then
        (case bs of
           [] \<Rightarrow> [65533]
         | c # cs \<Rightarrow>
             if continuation lead c then (lead mod 32 * 64 + c mod 64) # utf8_code_points cs
             else 65533 # utf8_code_points bs)
      else if 224 \<le> lead \<and> lead \<le> 239 then
        (case bs of
           [] \<Rightarrow> [65533]
         | c # cs \<Rightarrow>
             if continuation lead c then
               (case cs of
                  [] \<Rightarrow> [65533]
                | d # ds \<Rightarrow>
                    if trailing d
                    then (lead mod 16 * 4096 + c mod 64 * 64 + d mod 64) # utf8_code_points ds
                    else 65533 # utf8_code_points cs)
             else 65533 # utf8_code_points bs)
      else if 240 \<le> lead \<and> lead \<le> 244 then
        (case bs of
           [] \<Rightarrow> [65533]
         | c # cs \<Rightarrow>
             if continuation lead c then
               (case cs of
                  [] \<Rightarrow> [65533]
                | d # ds \<Rightarrow>
                    if trailing d then
                      (case ds of
                         [] \<Rightarrow> [65533]
                       | e # es \<Rightarrow>
                           if trailing e
                           then (lead mod 8 * 262144 + c mod 64 * 4096 + d mod 64 * 64 + e mod 64)
                                  # utf8_code_points es
                           else 65533 # utf8_code_points ds)
                    else 65533 # utf8_code_points cs)
             else 65533 # utf8_code_points bs)
      else 65533 # utf8_code_points bs)"

definition strip_bom :: "nat list \<Rightarrow> nat list" where
  "strip_bom cps = (case cps of [] \<Rightarrow> [] | c # cs \<Rightarrow> if c = 65279 then cs else c # cs)"

definition utf16_units :: "nat \<Rightarrow> jsstring" where
  "utf16_units cp =
     (if cp < 65536 then [cp]
      else [55296 + (cp - 65536) div 1024, 56320 + (cp - 65536) mod 1024])"

definition decode :: "u8 list \<Rightarrow> jsstring" where
  "decode bytes = concat (map utf16_units (strip_bom (utf8_code_points (map unat bytes))))"

section \<open>The parser of \<^verbatim>\<open>parsePPM.ts\<close>\<close>

datatype PPMFormat = P3 | P6

record PPMImage =
  width :: jsnum
  height :: jsnum
  pixelData :: "u8 list"
  maxColorValue :: jsnum
  format :: PPMFormat

text \<open>
  Every failure of the parser is a thrown \<^verbatim>\<open>Error\<close>; the three kinds differ in their
  message. The unsupported format carries the token that was read, which is
  concatenated to the message.
\<close>

datatype error =
    UnsupportedColorDepth
  | UnsupportedFormat "jsstring option"
  | PixelDataSizeMismatch

fun message :: "error \<Rightarrow> jsstring" where
  "message UnsupportedColorDepth = lit ''Only 8-bit color depth (max value 255) is supported.''"
| "message (UnsupportedFormat tok) =
     lit ''Unsupported PPM format: '' @ (case tok of None \<Rightarrow> lit ''undefined'' | Some s \<Rightarrow> s)"
| "message PixelDataSizeMismatch = lit ''Pixel data does not match expected size.''"

record rgb =
  r :: "u8 option"
  g :: "u8 option"
  b :: "u8 option"

definition getPixel :: "PPMImage \<Rightarrow> jsnum \<Rightarrow> jsnum \<Rightarrow> rgb" where
  "getPixel img x y =
     (let index = jsmul (jsadd (jsmul y (width img)) x) (Fin 3)
      in \<lparr>r = typed_get (pixelData img) index,
          g = typed_get (pixelData img) (jsadd index (Fin 1)),
          b = typed_get (pixelData img) (jsadd index (Fin 2))\<rparr>)"

definition parseHeaderAttributes ::
  "jsstring list \<Rightarrow> error + (jsstring option \<times> jsnum \<times> jsnum \<times> jsnum)" where
  "parseHeaderAttributes headerLines =
     (let fmt = item headerLines 0;
          w = item headerLines 1;
          h = item headerLines 2;
          mcv = item headerLines 3
      in if mcv \<noteq> Some (lit ''255'') then Inl UnsupportedColorDepth
         else Inr (fmt, parseInt w, parseInt h, parseInt mcv))"

definition parsePPMP6 :: "u8 list \<Rightarrow> error + PPMImage" where
  "parsePPMP6 data =
     (let header = decode (take 20 data);
          headerLines = split_ws header
      in case parseHeaderAttributes headerLines of
           Inl e \<Rightarrow> Inl e
         | Inr (fmt, w, h, mcv) \<Rightarrow>
             if fmt \<noteq> Some (lit ''P6'') then Inl (UnsupportedFormat fmt)
             else
               let headerLength = indexOf header (lit ''255'') + 4;
                   pd = subarray data headerLength
               in if strict_ne (Fin (of_nat (length pd))) (jsmul (jsmul w h) (Fin 3))
                  then Inl PixelDataSizeMismatch
                  else Inr \<lparr>width = w, height = h, pixelData = pd, maxColorValue = mcv,
                            format = P6\<rparr>)"

definition parsePPMP3 :: "u8 list \<Rightarrow> error + PPMImage" where
  "parsePPMP3 data =
     (let header = decode data;
          headerLines = split_ws header
      in case parseHeaderAttributes headerLines of
           Inl e \<Rightarrow> Inl e
         | Inr (fmt, w, h, mcv) \<Rightarrow>
             if fmt \<noteq> Some (lit ''P3'') then Inl (UnsupportedFormat fmt)
             else
               let pixelDataLines = join (lit ''\<newline>'') (drop 4 headerLines);
                   parsedValues = map Number (split_ws pixelDataLines)
               in if strict_ne (Fin (of_nat (length parsedValues))) (jsmul (jsmul w h) (Fin 3))
                  then Inl PixelDataSizeMismatch
                  else Inr \<lparr>width = w, height = h, pixelData = map ToUint8 parsedValues,
                            maxColorValue = mcv, format = P3\<rparr>)"

definition parsePPM :: "u8 list \<Rightarrow> error + PPMImage" where
  "parsePPM data =
     (let header = decode (take 20 data);
          fmt = item (split_ws header) 0
      in if fmt = Some (lit ''P6'') then parsePPMP6 data
         else if fmt = Some (lit ''P3'') then parsePPMP3 data
         else Inl (UnsupportedFormat fmt))"

section \<open>Notions used to state the properties\<close>

text \<open>
  Names for four expressions of the source: the tokens of the decoded first 20 bytes
  (\<^verbatim>\<open>headerLines\<close> in \<^verbatim>\<open>parsePPMP6\<close>, and what \<^verbatim>\<open>parsePPM\<close> takes the format from), the
  tokens of the whole decoded buffer (\<^verbatim>\<open>headerLines\<close> in \<^verbatim>\<open>parsePPMP3\<close>), the value of
  \<^verbatim>\<open>width * height * 3\<close> computed from such tokens, and the payload
  \<^verbatim>\<open>data.subarray(headerLength)\<close> of \<^verbatim>\<open>parsePPMP6\<close>.
\<close>

abbreviation prefix_tokens :: "u8 list \<Rightarrow> jsstring list" where
  "prefix_tokens data \<equiv> split_ws (decode (take 20 data))"

abbreviation text_tokens :: "u8 list \<Rightarrow> jsstring list" where
  "text_tokens data \<equiv> split_ws (decode data)"

abbreviation declared_size :: "jsstring list \<Rightarrow> jsnum" where
  "declared_size headerLines \<equiv>
     jsmul (jsmul (parseInt (item headerLines 1)) (parseInt (item headerLines 2))) (Fin 3)"

abbreviation P6_payload :: "u8 list \<Rightarrow> u8 list" where
  "P6_payload data \<equiv> subarray data (indexOf (decode (take 20 data)) (lit ''255'') + 4)"

text \<open>The buffer that holds an ASCII text, one byte for each character.\<close>

definition ascii :: "string \<Rightarrow> u8 list" where
  "ascii s = map (\<lambda>c. of_nat (of_char c)) s"

text \<open>A Number that is an integer, an infinity or \<^verbatim>\<open>NaN\<close>: never a fraction.\<close>

definition integral :: "jsnum \<Rightarrow> bool" where
  "integral x \<longleftrightarrow> (\<forall>v. x = Fin v \<longrightarrow> v \<in> \<int>)"

text \<open>
  A Number that stands for a natural number computed by the program: the number itself up to
  \<open>2 ^ 53\<close>, where doubles are exact, and beyond that some value that is at least \<open>2 ^ 53\<close>.
\<close>

definition represents :: "nat \<Rightarrow> jsnum \<Rightarrow> bool" where
  "represents n x \<longleftrightarrow>
     (n \<le> 2 ^ 53 \<and> x = Fin (of_nat n)) \<or>
     (2 ^ 53 < n \<and> (x = PInf \<or> (\<exists>k. x = Fin (of_int k) \<and> 2 ^ 53 \<le> k)))"

text \<open>The decimal numeral of a natural number, without leading zeros.\<close>

fun decimal :: "nat \<Rightarrow> jsstring" where
  "decimal n = (if n < 10 then [48 + n] else decimal (n div 10) @ [48 + n mod 10])"

declare decimal.simps [simp del]

text \<open>
  The text of a plain PPM file: the header with single spaces, then the sample tokens, each
  after its separator. In a well-formed body every separator is a non-empty run of whitespace
  and every token a non-empty run of decimal digits with a value of at most 255.
\<close>

definition p3_text :: "nat \<Rightarrow> nat \<Rightarrow> (jsstring \<times> jsstring) list \<Rightarrow> jsstring" where
  "p3_text W H body =
     lit ''P3 '' @ decimal W @ lit '' '' @ decimal H @ lit '' 255'' @
     concat (map (\<lambda>(sep, t). sep @ t) body)"

definition well_formed_body :: "(jsstring \<times> jsstring) list \<Rightarrow> bool" where
  "well_formed_body body \<longleftrightarrow>
     (\<forall>(sep, t)\<in>set body.
        sep \<noteq> [] \<and> list_all is_ws sep \<and>
        t \<noteq> [] \<and> list_all is_digit t \<and> digits_value 10 t \<le> 255)"

section \<open>Rounding to a double\<close>

text \<open>
  Doubles are exact on the integers up to \<open>2 ^ 53\<close>; beyond, rounding keeps a value at
  least that large, and an integer stays an integer.
\<close>

lemma pow2_powi: "pow2 k = 2 powi k"
  by (simp add: pow2_def power_int_def inverse_eq_divide power_one_over)

lemma pow2_pos: "0 < pow2 k"
  by (simp add: pow2_powi zero_less_power_int)

lemma pow2_add: "pow2 (j + k) = pow2 j * pow2 k"
  by (simp add: pow2_powi power_int_add)

lemma pow2_mono: "j \<le> k \<Longrightarrow> pow2 j \<le> pow2 k"
  by (simp add: pow2_powi power_int_increasing)

lemma pow2_strict_mono: "j < k \<Longrightarrow> pow2 j < pow2 k"
  by (simp add: pow2_powi power_int_strict_increasing)

lemma pow2_nat: "0 \<le> k \<Longrightarrow> pow2 k = of_int (2 ^ nat k)"
  by (simp add: pow2_def)

lemma ilog2_bounds:
  assumes "1 \<le> a"
  shows "pow2 (ilog2 a) \<le> a" and "a < pow2 (ilog2 a + 1)"
proof -
  let ?n = "\<lfloor>a\<rfloor>"
  have n: "0 < ?n" using assms by simp
  have e: "ilog2 a = bitlen ?n - 1" using assms by (simp add: ilog2_def)
  have b1: "1 \<le> bitlen ?n"
    using n bitlen_nonneg [of ?n] bitlen_eq_zero_iff [of ?n] by linarith
  from bitlen_bounds [OF n]
  have lo: "2 ^ nat (bitlen ?n - 1) \<le> ?n" and hi: "?n < 2 ^ nat (bitlen ?n)" by simp_all
  have "pow2 (ilog2 a) = of_int (2 ^ nat (bitlen ?n - 1))"
    using b1 by (simp add: e pow2_nat)
  also have "\<dots> \<le> of_int ?n" using lo by (simp only: of_int_le_iff)
  also have "\<dots> \<le> a" by simp
  finally show "pow2 (ilog2 a) \<le> a" .
  have "?n + 1 \<le> 2 ^ nat (bitlen ?n)" using hi by simp
  then have "(of_int (?n + 1) :: rat) \<le> of_int (2 ^ nat (bitlen ?n))"
    by (simp only: of_int_le_iff)
  moreover have "a < of_int (?n + 1)" by linarith
  moreover have "pow2 (ilog2 a + 1) = of_int (2 ^ nat (bitlen ?n))"
    using b1 by (simp add: e pow2_nat)
  ultimately show "a < pow2 (ilog2 a + 1)" by simp
qed

lemma round_half_even_of_int: "round_half_even (of_int k) = k"
  by (simp add: round_half_even_def)

lemma round_half_even_ge: "of_int k \<le> x \<Longrightarrow> k \<le> round_half_even x"
proof -
  assume "of_int k \<le> x"
  then have "k \<le> \<lfloor>x\<rfloor>" by (simp add: le_floor_iff)
  then show ?thesis by (simp add: round_half_even_def Let_def)
qed

lemma fl_unfold:
  "fl q =
     (if q = 0 then Fin 0
      else if pow2 1024 \<le> of_int (round_half_even (\<bar>q\<bar> / pow2 (max (ilog2 \<bar>q\<bar> - 52) (- 1074))))
                * pow2 (max (ilog2 \<bar>q\<bar> - 52) (- 1074))
      then (if 0 < q then PInf else NInf)
      else Fin (sgn q * (of_int (round_half_even (\<bar>q\<bar> / pow2 (max (ilog2 \<bar>q\<bar> - 52) (- 1074))))
                * pow2 (max (ilog2 \<bar>q\<bar> - 52) (- 1074)))))"
  unfolding fl_def Let_def by (rule refl)

lemma fl_neg:
  "fl (- q) = (case fl q of NaN \<Rightarrow> NaN | PInf \<Rightarrow> NInf | NInf \<Rightarrow> PInf | Fin v \<Rightarrow> Fin (- v))"
proof -
  define v where
    "v = of_int (round_half_even (\<bar>q\<bar> / pow2 (max (ilog2 \<bar>q\<bar> - 52) (- 1074))))
           * pow2 (max (ilog2 \<bar>q\<bar> - 52) (- 1074))"
  have 1: "fl q = (if q = 0 then Fin 0 else if pow2 1024 \<le> v then (if 0 < q then PInf else NInf)
                   else Fin (sgn q * v))"
    unfolding v_def by (rule fl_unfold)
  have 2: "fl (- q) = (if q = 0 then Fin 0 else if pow2 1024 \<le> v then (if q < 0 then PInf else NInf)
                   else Fin (- (sgn q * v)))"
    unfolding v_def by (subst fl_unfold) (simp add: sgn_minus)
  consider "q = 0" | "0 < q" | "q < 0" by linarith
  then show ?thesis by cases (use 1 2 in auto)
qed

lemma fl_FinI:
  assumes "q \<noteq> 0" and "p = max (ilog2 \<bar>q\<bar> - 52) (- 1074)"
    and "of_int (round_half_even (\<bar>q\<bar> / pow2 p)) * pow2 p = v" and "v < pow2 1024"
  shows "fl q = Fin (sgn q * v)"
  using assms by (simp add: fl_unfold)

lemma pow2_53: "pow2 53 = of_int (2 ^ 53)"
  by (simp add: pow2_def)

lemma pow2_52: "pow2 52 = of_int (2 ^ 52)"
  by (simp add: pow2_def)

lemma fl_pos_exact:
  assumes "0 < n" and "n \<le> 2 ^ 53"
  shows "fl (of_int n) = Fin (of_int n)"
proof -
  let ?a = "of_int n :: rat"
  have a1: "1 \<le> ?a" using assms by simp
  have a53: "?a \<le> pow2 53" unfolding pow2_53 using assms(2) by (simp only: of_int_le_iff)
  have "pow2 53 \<le> pow2 1023" by (rule pow2_mono) simp
  moreover have "pow2 1023 < pow2 1024" by (rule pow2_strict_mono) simp
  ultimately have small: "?a < pow2 1024" using a53 by linarith
  have le53: "pow2 (ilog2 ?a) \<le> pow2 53" using ilog2_bounds(1) [OF a1] a53 by simp
  have e53: "ilog2 ?a \<le> 53"
  proof (rule ccontr)
    assume "\<not> ilog2 ?a \<le> 53"
    then have "pow2 54 \<le> pow2 (ilog2 ?a)" by (intro pow2_mono) simp
    moreover have "pow2 53 < pow2 54" by (rule pow2_strict_mono) simp
    ultimately show False using le53 by linarith
  qed
  define p where "p = max (ilog2 ?a - 52) (- 1074)"
  have v: "of_int (round_half_even (?a / pow2 p)) * pow2 p = ?a"
  proof (cases "ilog2 ?a \<le> 52")
    case True
    then have p0: "p \<le> 0" by (simp add: p_def)
    then have pp: "pow2 p = 1 / of_int (2 ^ nat (- p))"
      by (cases "p = 0") (simp_all add: pow2_def)
    then have "?a / pow2 p = of_int (n * 2 ^ nat (- p))" by simp
    then have "round_half_even (?a / pow2 p) = n * 2 ^ nat (- p)"
      by (simp only: round_half_even_of_int)
    then show ?thesis by (simp add: pp)
  next
    case False
    with e53 have e: "ilog2 ?a = 53" by simp
    then have "pow2 53 \<le> ?a" using ilog2_bounds(1) [OF a1] by simp
    with a53 have a: "?a = pow2 53" by simp
    have p: "p = 1" by (simp add: p_def e)
    have p1: "pow2 1 = 2" by (simp add: pow2_def)
    have "?a / pow2 p = of_int (2 ^ 52)" unfolding a p p1 pow2_53 by simp
    then have "round_half_even (?a / pow2 p) = 2 ^ 52" by (simp only: round_half_even_of_int)
    then show ?thesis unfolding a p p1 pow2_53 by simp
  qed
  have "fl ?a = Fin (sgn ?a * ?a)"
  proof (rule fl_FinI [where p = p])
    show "?a \<noteq> 0" using assms by simp
    show "p = max (ilog2 \<bar>?a\<bar> - 52) (- 1074)" using assms(1) by (simp add: p_def)
    show "of_int (round_half_even (\<bar>?a\<bar> / pow2 p)) * pow2 p = ?a" using v assms(1) by simp
    show "?a < pow2 1024" by (rule small)
  qed
  then show ?thesis using assms(1) by simp
qed

lemma fl_int_exact:
  assumes "\<bar>n\<bar> \<le> 2 ^ 53"
  shows "fl (of_int n) = Fin (of_int n)"
proof -
  consider "n = 0" | "0 < n" | "n < 0" by linarith
  then show ?thesis
  proof cases
    case 1
    then show ?thesis by (simp add: fl_def)
  next
    case 2
    then show ?thesis using assms by (simp add: fl_pos_exact)
  next
    case 3
    then have "fl (of_int (- n)) = Fin (of_int (- n))"
      using assms by (intro fl_pos_exact) simp_all
    then show ?thesis using fl_neg [of "of_int (- n)"] by simp
  qed
qed

lemma fl_nat_exact:
  assumes "n \<le> 2 ^ 53"
  shows "fl (of_nat n) = Fin (of_nat n)"
proof -
  have "int n \<le> int (2 ^ 53)" using assms by (simp only: of_nat_le_iff)
  then have "\<bar>int n\<bar> \<le> 2 ^ 53" by simp
  from fl_int_exact [OF this] show ?thesis by simp
qed

lemma fl_large:
  assumes "2 ^ 53 \<le> q"
  shows "fl q = PInf \<or> (\<exists>k. fl q = Fin (of_int k) \<and> 2 ^ 53 \<le> k)"
proof -
  have q1: "1 \<le> q" using assms by (rule order_trans [rotated]) simp
  have q0: "0 < q" using q1 by simp
  have q53: "pow2 53 \<le> q" unfolding pow2_53 using assms by simp
  have e: "53 \<le> ilog2 q"
  proof (rule ccontr)
    assume "\<not> 53 \<le> ilog2 q"
    then have "pow2 (ilog2 q + 1) \<le> pow2 53" by (intro pow2_mono) simp
    then show False using ilog2_bounds(2) [OF q1] q53 by linarith
  qed
  define p where "p = max (ilog2 q - 52) (- 1074)"
  have p: "p = ilog2 q - 52" using e by (simp add: p_def)
  have p1: "1 \<le> p" using e by (simp add: p)
  define m where "m = round_half_even (q / pow2 p)"
  have "pow2 (ilog2 q) = pow2 52 * pow2 p" by (simp add: p flip: pow2_add)
  then have "of_int (2 ^ 52) * pow2 p \<le> q" using ilog2_bounds(1) [OF q1] by (simp only: pow2_52)
  then have "of_int (2 ^ 52) \<le> q / pow2 p" using pow2_pos [of p] by (simp add: pos_le_divide_eq)
  then have m52: "2 ^ 52 \<le> m" unfolding m_def by (rule round_half_even_ge)
  have pp: "pow2 p = of_int (2 ^ nat p)" using p1 by (simp add: pow2_nat)
  have "(2::int) ^ 53 = 2 ^ 52 * 2 ^ 1" by simp
  also have "\<dots> \<le> m * 2 ^ nat p"
  proof (rule mult_mono)
    show "2 ^ 52 \<le> m" by (rule m52)
    show "(2::int) ^ 1 \<le> 2 ^ nat p" using p1 by (intro power_increasing) simp_all
  qed (use m52 in simp_all)
  finally have k53: "2 ^ 53 \<le> m * 2 ^ nat p" .
  have v: "of_int m * pow2 p = of_int (m * 2 ^ nat p)" by (simp add: pp)
  have "fl q = (if pow2 1024 \<le> of_int m * pow2 p then PInf else Fin (of_int m * pow2 p))"
    using q0 unfolding m_def p_def by (subst fl_unfold) simp
  then have "fl q = PInf \<or> fl q = Fin (of_int (m * 2 ^ nat p))"
    unfolding v by (simp split: if_splits)
  then show ?thesis using k53 by blast
qed

lemma fl_large_neg:
  assumes "q \<le> - (2 ^ 53)"
  shows "fl q = NInf \<or> (\<exists>k. fl q = Fin (of_int k) \<and> k \<le> - (2 ^ 53))"
proof -
  have "2 ^ 53 \<le> - q" using assms by simp
  from fl_large [OF this] show ?thesis
  proof
    assume "fl (- q) = PInf"
    then show ?thesis using fl_neg [of "- q"] by simp
  next
    assume "\<exists>k. fl (- q) = Fin (of_int k) \<and> 2 ^ 53 \<le> k"
    then obtain k where "fl (- q) = Fin (of_int k)" and "2 ^ 53 \<le> k" by blast
    then have "fl q = Fin (of_int (- k)) \<and> - k \<le> - (2 ^ 53)" using fl_neg [of "- q"] by simp
    then show ?thesis by blast
  qed
qed

lemma fl_of_int_cases:
  obtains "\<bar>n\<bar> \<le> 2 ^ 53" "fl (of_int n) = Fin (of_int n)"
  | "2 ^ 53 < n" "fl (of_int n) = PInf"
  | k where "2 ^ 53 < n" "fl (of_int n) = Fin (of_int k)" "2 ^ 53 \<le> k"
  | "n < - (2 ^ 53)" "fl (of_int n) = NInf"
  | k where "n < - (2 ^ 53)" "fl (of_int n) = Fin (of_int k)" "k \<le> - (2 ^ 53)"
proof -
  consider "\<bar>n\<bar> \<le> 2 ^ 53" | "2 ^ 53 < n" | "n < - (2 ^ 53)" by linarith
  then show ?thesis
  proof cases
    case 1
    then show ?thesis using fl_int_exact that(1) by blast
  next
    case 2
    then have "(2::rat) ^ 53 \<le> of_int n"
      by (metis of_int_le_iff of_int_numeral of_int_power less_imp_le)
    from fl_large [OF this] show ?thesis using 2 that(2,3) by blast
  next
    case 3
    then have "of_int n \<le> - ((2::rat) ^ 53)"
      by (metis of_int_le_iff of_int_numeral of_int_power of_int_minus less_imp_le)
    from fl_large_neg [OF this] show ?thesis using 3 that(4,5) by blast
  qed
qed

lemma integral_fl_of_int: "integral (fl (of_int n))"
  by (rule fl_of_int_cases [of n]) (auto simp: integral_def)

lemma fl_0: "fl 0 = Fin 0"
  by (simp add: fl_def)

lemma fl_1: "fl 1 = Fin 1"
  using fl_nat_exact [of 1] by simp

lemma fl_numeral: "(numeral k :: nat) \<le> 2 ^ 53 \<Longrightarrow> fl (numeral k) = Fin (numeral k)"
  using fl_nat_exact [of "numeral k"] by simp

lemma fl_neg_numeral:
  "(numeral k :: nat) \<le> 2 ^ 53 \<Longrightarrow> fl (- numeral k) = Fin (- numeral k)"
  using fl_neg [of "numeral k"] by (simp add: fl_numeral)

lemma fl_neg_1: "fl (- 1) = Fin (- 1)"
  using fl_neg [of 1] by (simp add: fl_1)

lemma fl_of_int_Fin:
  assumes "fl (of_int n) = Fin v"
  obtains k where "v = of_int k"
  using integral_fl_of_int [of n] assms by (auto simp: integral_def elim: Ints_cases)

lemma fl_of_int_small:
  assumes "fl (of_int n) = Fin (of_int k)" and "\<bar>k\<bar> < 2 ^ 53"
  shows "k = n"
  by (rule fl_of_int_cases [of n]) (use assms in auto)

lemma jsmul_Fin_cases:
  assumes "jsmul x y = Fin v"
  obtains a b where "x = Fin a" "y = Fin b" "fl (a * b) = Fin v"
  using assms by (cases x; cases y) (auto split: if_splits)

lemma integralE:
  assumes "integral (Fin a)"
  obtains k where "a = of_int k"
  using assms by (auto simp: integral_def elim: Ints_cases)

lemma size_product_exact:
  assumes "integral x" and "integral y"
    and "jsmul (jsmul x y) (Fin 3) = Fin (of_nat n)" and "n < 2 ^ 53"
  shows "\<exists>w h. x = Fin (of_int w) \<and> y = Fin (of_int h) \<and> w * h * 3 = int n"
proof -
  from assms(3) obtain c where c: "jsmul x y = Fin c" and c3: "fl (c * 3) = Fin (of_nat n)"
    by (elim jsmul_Fin_cases) auto
  from c obtain a b where x: "x = Fin a" and y: "y = Fin b" and ab: "fl (a * b) = Fin c"
    by (elim jsmul_Fin_cases)
  from assms(1) x obtain w where w: "a = of_int w" by (auto elim: integralE)
  from assms(2) y obtain h where h: "b = of_int h" by (auto elim: integralE)
  have ab': "fl (of_int (w * h)) = Fin c" using ab by (simp add: w h)
  then obtain k where k: "c = of_int k" by (rule fl_of_int_Fin)
  have "int n < int (2 ^ 53)" using assms(4) by (simp only: of_nat_less_iff)
  then have n: "\<bar>int n\<bar> < 2 ^ 53" by simp
  have "fl (of_int (k * 3)) = Fin (of_int (int n))" using c3 by (simp add: k)
  from fl_of_int_small [OF this n] have k3: "int n = k * 3" .
  then have "\<bar>k\<bar> < 2 ^ 53" using n by linarith
  from fl_of_int_small [OF ab' [unfolded k] this] have "k = w * h" .
  then show ?thesis using x y w h k3 by simp
qed

lemma size_ne_1:
  assumes "integral x" and "integral y"
  shows "jsmul (jsmul x y) (Fin 3) \<noteq> Fin 1"
proof
  assume "jsmul (jsmul x y) (Fin 3) = Fin 1"
  then have "jsmul (jsmul x y) (Fin 3) = Fin (of_nat 1)" by simp
  from size_product_exact [OF assms this] obtain w h :: int where "w * h * 3 = 1" by auto
  then have "(3::int) dvd 1" by (metis dvd_triv_right)
  then show False by simp
qed

lemma size_mismatch_exact:
  assumes "integral x" and "integral y" and "n < 2 ^ 53"
    and "\<not> (\<exists>w h. x = Fin (of_int w) \<and> y = Fin (of_int h) \<and> w * h * 3 = int n)"
  shows "strict_ne (Fin (of_nat n)) (jsmul (jsmul x y) (Fin 3))"
  using size_product_exact [OF assms(1,2) _ assms(3)] assms(4)
  by (auto simp: strict_ne_def)

lemma size_exact:
  assumes "W * H * 3 \<le> 2 ^ 53"
  shows "jsmul (jsmul (Fin (of_nat W)) (Fin (of_nat H))) (Fin 3) = Fin (of_nat (W * H * 3))"
proof -
  have "W * H \<le> W * H * 3" by simp
  then have "W * H \<le> 2 ^ 53" using assms by (rule order_trans)
  then have "jsmul (Fin (of_nat W)) (Fin (of_nat H)) = Fin (of_nat (W * H))"
    using fl_nat_exact [of "W * H"] by simp
  then show ?thesis using fl_nat_exact [OF assms] by simp
qed

lemma represents_fl: "represents n (fl (of_nat n))"
proof (cases "n \<le> 2 ^ 53")
  case True
  then show ?thesis by (simp add: represents_def fl_nat_exact)
next
  case False
  then have "(2::nat) ^ 53 \<le> n" by simp
  then have "(of_nat (2 ^ 53) :: rat) \<le> of_nat n" by (simp only: of_nat_le_iff)
  then have "(2::rat) ^ 53 \<le> of_nat n" by simp
  from fl_large [OF this] show ?thesis using False by (auto simp: represents_def)
qed

lemma represents_large:
  assumes "2 ^ 53 \<le> q" and "2 ^ 53 < n"
  shows "represents n (fl q)"
  using fl_large [OF assms(1)] assms(2) by (auto simp: represents_def)

lemma represents_add:
  assumes "represents a x"
  shows "represents (a + c) (jsadd x (Fin (of_nat c)))"
proof (cases "a \<le> 2 ^ 53")
  case True
  then have "x = Fin (of_nat a)" using assms by (simp add: represents_def)
  then have "jsadd x (Fin (of_nat c)) = fl (of_nat (a + c))" by simp
  then show ?thesis by (simp only: represents_fl)
next
  case False
  then have big: "2 ^ 53 < a + c" by simp
  from False assms consider "x = PInf" | k where "x = Fin (of_int k)" "2 ^ 53 \<le> k"
    by (auto simp: represents_def)
  then show ?thesis
  proof cases
    case 1
    then show ?thesis using big by (simp add: represents_def)
  next
    case 2
    have "(of_int (2 ^ 53) :: rat) \<le> of_int k" using 2(2) by (simp only: of_int_le_iff)
    then have "(2::rat) ^ 53 \<le> of_int k + of_nat c" by simp
    from represents_large [OF this big] show ?thesis by (simp add: 2(1))
  qed
qed

lemma represents_mult3:
  assumes "represents a x"
  shows "represents (a * 3) (jsmul x (Fin 3))"
proof (cases "a \<le> 2 ^ 53")
  case True
  then have "x = Fin (of_nat a)" using assms by (simp add: represents_def)
  then have "jsmul x (Fin 3) = fl (of_nat (a * 3))" by simp
  then show ?thesis by (simp only: represents_fl)
next
  case False
  then have big: "2 ^ 53 < a * 3" by simp
  from False assms consider "x = PInf" | k where "x = Fin (of_int k)" "2 ^ 53 \<le> k"
    by (auto simp: represents_def)
  then show ?thesis
  proof cases
    case 1
    then show ?thesis using big by (simp add: represents_def)
  next
    case 2
    have "(of_int (2 ^ 53) :: rat) \<le> of_int k" using 2(2) by (simp only: of_int_le_iff)
    then have "(2::rat) ^ 53 \<le> of_int k * 3" by simp
    from represents_large [OF this big] show ?thesis by (simp add: 2(1))
  qed
qed

lemma trunc_int_of_int: "trunc_int (of_int n) = n"
  by (simp add: trunc_int_def)

lemma trunc_int_numeral:
  "trunc_int (numeral k) = numeral k" "trunc_int (- numeral k) = - numeral k"
  "trunc_int 0 = 0" "trunc_int 1 = 1" "trunc_int (- 1) = - 1"
  using trunc_int_of_int [of "numeral k"] trunc_int_of_int [of "- numeral k"]
    trunc_int_of_int [of 0] trunc_int_of_int [of 1] trunc_int_of_int [of "- 1"]
  by simp_all

lemma ToUint8_of_nat: "ToUint8 (Fin (of_nat v)) = of_nat v"
  using trunc_int_of_int [of "int v"] by simp

section \<open>Tokens and substrings\<close>

text \<open>
  What \<^verbatim>\<open>split(/\s+/)\<close> returns: tokens without whitespace that occur in the string, empty
  only at the two ends; splitting the joined tokens again gives the same tokens.
\<close>

lemma split_ws_Nil: "split_ws [] = [[]]"
  by (simp add: split_ws.simps)

lemmas split_ws_Cons = split_ws.simps [of "c # cs"] for c cs

lemma split_ws_not_Nil: "split_ws s \<noteq> []"
  by (subst split_ws.simps) (simp split: list.split)

lemma split_ws_end:
  "dropWhile (\<lambda>c. \<not> is_ws c) s = [] \<Longrightarrow> split_ws s = [takeWhile (\<lambda>c. \<not> is_ws c) s]"
  by (subst split_ws.simps) (simp only: list.case)

lemma split_ws_step:
  "dropWhile (\<lambda>c. \<not> is_ws c) s = c # rest \<Longrightarrow>
   split_ws s = takeWhile (\<lambda>c. \<not> is_ws c) s # split_ws (dropWhile is_ws rest)"
  by (subst split_ws.simps) (simp only: list.case)

lemma hd_split_ws: "hd (split_ws s) = takeWhile (\<lambda>c. \<not> is_ws c) s"
  by (cases "dropWhile (\<lambda>c. \<not> is_ws c) s") (simp_all only: split_ws_end split_ws_step list.sel)

lemma item_split_ws_0: "item (split_ws s) 0 = Some (hd (split_ws s))"
  using split_ws_not_Nil [of s] by (cases "split_ws s") (simp_all add: item_def)

lemma item_mem: "item xs i = Some t \<Longrightarrow> t \<in> set xs"
  by (auto simp: item_def split: if_splits)

lemma split_ws_token_sub: "t \<in> set (split_ws s) \<Longrightarrow> \<exists>u v. s = u @ t @ v"
proof (induction s rule: split_ws.induct)
  case (1 s)
  let ?tw = "takeWhile (\<lambda>c. \<not> is_ws c) s"
  have s: "s = ?tw @ dropWhile (\<lambda>c. \<not> is_ws c) s" by simp
  show ?case
  proof (cases "dropWhile (\<lambda>c. \<not> is_ws c) s")
    case Nil
    then have "t = ?tw" using "1.prems" by (subst (asm) split_ws.simps) (simp add: Nil)
    then have "s = [] @ t @ dropWhile (\<lambda>c. \<not> is_ws c) s" using s by simp
    then show ?thesis by blast
  next
    case (Cons c rest)
    then have "t = ?tw \<or> t \<in> set (split_ws (dropWhile is_ws rest))"
      using "1.prems" by (subst (asm) split_ws.simps) auto
    then show ?thesis
    proof
      assume "t = ?tw"
      then have "s = [] @ t @ dropWhile (\<lambda>c. \<not> is_ws c) s" using s by simp
      then show ?thesis by blast
    next
      assume "t \<in> set (split_ws (dropWhile is_ws rest))"
      from "1.IH" [OF Cons this] obtain u v where uv: "dropWhile is_ws rest = u @ t @ v" by blast
      have "rest = takeWhile is_ws rest @ dropWhile is_ws rest" by simp
      then have "s = (?tw @ c # takeWhile is_ws rest @ u) @ t @ v"
        using s Cons uv by (metis append.assoc append_Cons)
      then show ?thesis by blast
    qed
  qed
qed

lemma split_ws_tokens_nws: "t \<in> set (split_ws s) \<Longrightarrow> \<forall>c\<in>set t. \<not> is_ws c"
proof (induction s rule: split_ws.induct)
  case (1 s)
  show ?case
  proof (cases "dropWhile (\<lambda>c. \<not> is_ws c) s")
    case Nil
    then have "t = takeWhile (\<lambda>c. \<not> is_ws c) s"
      using "1.prems" by (simp only: split_ws_end [OF Nil]) simp
    then show ?thesis by (auto dest: set_takeWhileD)
  next
    case (Cons c rest)
    then have "t = takeWhile (\<lambda>c. \<not> is_ws c) s \<or> t \<in> set (split_ws (dropWhile is_ws rest))"
      using "1.prems" by (simp only: split_ws_step [OF Cons]) simp
    then show ?thesis using "1.IH" [OF Cons] by (auto dest: set_takeWhileD)
  qed
qed

lemma split_ws_nws:
  assumes "\<forall>c\<in>set t. \<not> is_ws c"
  shows "split_ws t = [t]"
proof -
  have "dropWhile (\<lambda>c. \<not> is_ws c) t = []" and "takeWhile (\<lambda>c. \<not> is_ws c) t = t"
    using assms by simp_all
  then show ?thesis using split_ws_end [of t] by simp
qed

lemma split_ws_hd_nonempty: "s \<noteq> [] \<Longrightarrow> \<not> is_ws (hd s) \<Longrightarrow> hd (split_ws s) \<noteq> []"
  by (cases s) (simp_all add: hd_split_ws)

lemma dropWhile_ws_start: "dropWhile is_ws xs \<noteq> [] \<Longrightarrow> \<not> is_ws (hd (dropWhile is_ws xs))"
  using hd_dropWhile [of is_ws xs] by simp

lemma split_ws_inner_nonempty: "\<forall>t\<in>set (butlast (tl (split_ws s))). t \<noteq> []"
proof (induction s rule: split_ws.induct)
  case (1 s)
  show ?case
  proof (cases "dropWhile (\<lambda>c. \<not> is_ws c) s")
    case Nil
    then have "tl (split_ws s) = []" by (simp only: split_ws_end [OF Nil] list.sel)
    then show ?thesis by simp
  next
    case (Cons c rest)
    let ?s' = "dropWhile is_ws rest"
    have tl: "tl (split_ws s) = split_ws ?s'" by (simp only: split_ws_step [OF Cons] list.sel)
    show ?thesis
    proof (cases "?s' = []")
      case True
      have "butlast (split_ws []) = []" by (simp add: split_ws_Nil)
      then show ?thesis unfolding tl True by simp
    next
      case False
      then have h: "hd (split_ws ?s') \<noteq> []"
        by (intro split_ws_hd_nonempty dropWhile_ws_start)
      obtain t0 ts where eq: "split_ws ?s' = t0 # ts"
        using split_ws_not_Nil [of ?s'] by (cases "split_ws ?s'") auto
      have "t0 \<noteq> []" using h by (simp add: eq)
      moreover have "\<forall>t\<in>set (butlast ts). t \<noteq> []" using "1.IH" [OF Cons] by (simp add: eq)
      ultimately show ?thesis unfolding tl eq by (auto split: if_splits)
    qed
  qed
qed

lemma resplit:
  assumes "toks \<noteq> []" and "\<forall>t\<in>set toks. \<forall>c\<in>set t. \<not> is_ws c"
    and "\<forall>t\<in>set (butlast toks). t \<noteq> []"
  shows "split_ws (join [10] toks) = toks"
  using assms
proof (induction toks)
  case Nil
  then show ?case by simp
next
  case (Cons t ts)
  show ?case
  proof (cases ts)
    case Nil
    then show ?thesis using Cons.prems by (simp add: split_ws_nws)
  next
    case (Cons u us)
    have t: "\<forall>c\<in>set t. \<not> is_ws c" and tne: "t \<noteq> []"
      using Cons.prems Cons by simp_all
    have ws10: "is_ws 10" by (simp add: is_ws_def)
    have IH: "split_ws (join [10] ts) = ts"
      using Cons.prems Cons by (intro Cons.IH) (auto split: if_splits)
    have start: "dropWhile is_ws (join [10] ts) = join [10] ts"
    proof (cases "u = []")
      case True
      then have "us = []" using Cons.prems(3) Cons by (auto split: if_splits)
      then show ?thesis using True Cons by simp
    next
      case False
      then obtain c cs where u: "u = c # cs" by (cases u) auto
      then have "\<not> is_ws c" using Cons.prems(2) Cons by simp
      then show ?thesis using u Cons by (cases us) simp_all
    qed
    have tw: "takeWhile (\<lambda>c. \<not> is_ws c) (t @ 10 # join [10] ts) = t"
      using t ws10 by (simp add: takeWhile_append2)
    have dw: "dropWhile (\<lambda>c. \<not> is_ws c) (t @ 10 # join [10] ts) = 10 # join [10] ts"
      using t ws10 by (simp add: dropWhile_append2)
    have "join [10] (t # ts) = t @ 10 # join [10] ts"
      unfolding Cons by simp
    then have "split_ws (join [10] (t # ts)) = t # split_ws (dropWhile is_ws (join [10] ts))"
      using split_ws_step [OF dw] by (simp only: tw)
    then show ?thesis by (simp add: start IH)
  qed
qed

lemma resplit_drop4:
  assumes "drop 4 (split_ws s) \<noteq> []"
  shows "split_ws (join (lit ''\<newline>'') (drop 4 (split_ws s))) = drop 4 (split_ws s)"
proof -
  have nl: "lit ''\<newline>'' = [10]" by (simp add: lit_def)
  have 1: "\<forall>t\<in>set (drop 4 (split_ws s)). \<forall>c\<in>set t. \<not> is_ws c"
    using split_ws_tokens_nws [of _ s] by (meson in_set_dropD)
  have "drop 4 ys = drop 3 (tl ys)" for ys :: "jsstring list"
    by (cases ys) simp_all
  then have "butlast (drop 4 (split_ws s)) = drop 3 (butlast (tl (split_ws s)))"
    by (simp only: butlast_drop butlast_tl)
  then have 2: "\<forall>t\<in>set (butlast (drop 4 (split_ws s))). t \<noteq> []"
    using split_ws_inner_nonempty [of s] by (metis in_set_dropD)
  show ?thesis unfolding nl by (rule resplit [OF assms 1 2])
qed

lemma split_ws_token:
  assumes "\<forall>c\<in>set t. \<not> is_ws c" and "sep \<noteq> []" and "list_all is_ws sep"
    and "rest = [] \<or> \<not> is_ws (hd rest)"
  shows "split_ws (t @ sep @ rest) = t # split_ws rest"
proof -
  obtain c sep' where sep: "sep = c # sep'" using assms(2) by (cases sep) auto
  have c: "is_ws c" and sep': "\<forall>x\<in>set sep'. is_ws x"
    using assms(3) by (simp_all add: sep list_all_iff)
  have tw: "takeWhile (\<lambda>c. \<not> is_ws c) (t @ sep @ rest) = t"
    using assms(1) c by (simp add: sep takeWhile_append2)
  have dw: "dropWhile (\<lambda>c. \<not> is_ws c) (t @ sep @ rest) = c # (sep' @ rest)"
    using assms(1) c by (simp add: sep dropWhile_append2)
  have "dropWhile is_ws (sep' @ rest) = dropWhile is_ws rest"
    using sep' by (simp add: dropWhile_append2)
  also have "\<dots> = rest" using assms(4) by (cases rest) auto
  finally show ?thesis using split_ws_step [OF dw] by (simp add: tw)
qed

lemma dropWhile_none: "\<forall>c\<in>set xs. \<not> P c \<Longrightarrow> dropWhile P xs = xs"
  by (cases xs) auto

lemma indexOf_from_found:
  assumes "pat \<noteq> []" and "s = u @ pat @ v"
  shows "\<exists>k. indexOf_from i pat s = int (i + k) \<and> take (length pat) (drop k s) = pat \<and>
             (\<forall>j<k. take (length pat) (drop j s) \<noteq> pat)"
  using assms(2)
proof (induction s arbitrary: i u)
  case Nil
  then show ?case using assms(1) by simp
next
  case (Cons c cs)
  show ?case
  proof (cases "take (length pat) (c # cs) = pat")
    case True
    then have "indexOf_from i pat (c # cs) = int (i + 0) \<and>
               take (length pat) (drop 0 (c # cs)) = pat \<and>
               (\<forall>j<0. take (length pat) (drop j (c # cs)) \<noteq> pat)" by simp
    then show ?thesis by blast
  next
    case False
    have "u \<noteq> []"
    proof
      assume "u = []"
      then have "take (length pat) (c # cs) = pat" using Cons.prems by simp
      with False show False by simp
    qed
    then obtain u' where u: "u = c # u'" and cs: "cs = u' @ pat @ v"
      using Cons.prems by (cases u) auto
    from Cons.IH [OF cs, of "Suc i"] obtain k where
      k: "indexOf_from (Suc i) pat cs = int (Suc i + k)"
         "take (length pat) (drop k cs) = pat"
         "\<forall>j<k. take (length pat) (drop j cs) \<noteq> pat" by blast
    have "\<forall>j<Suc k. take (length pat) (drop j (c # cs)) \<noteq> pat"
    proof (intro allI impI)
      fix j assume "j < Suc k"
      then show "take (length pat) (drop j (c # cs)) \<noteq> pat"
        using False k(3) by (cases j) simp_all
    qed
    then have "indexOf_from i pat (c # cs) = int (i + Suc k) \<and>
               take (length pat) (drop (Suc k) (c # cs)) = pat \<and>
               (\<forall>j<Suc k. take (length pat) (drop j (c # cs)) \<noteq> pat)"
      using False k(1,2) by simp
    then show ?thesis by blast
  qed
qed

lemma indexOf_token:
  assumes "item (split_ws s) n = Some t" and "t \<noteq> []"
  shows "\<exists>k. indexOf s t = int k \<and> take (length t) (drop k s) = t \<and>
             (\<forall>j<k. take (length t) (drop j s) \<noteq> t)"
proof -
  from split_ws_token_sub [OF item_mem [OF assms(1)]] obtain u v where "s = u @ t @ v" by blast
  from indexOf_from_found [OF assms(2) this, of 0] show ?thesis by (simp add: indexOf_def)
qed

lemma subarray_nonneg: "0 \<le> k \<Longrightarrow> subarray data k = drop (nat k) data"
  by (auto simp: subarray_def Let_def min_def)

section \<open>Numerals\<close>

text \<open>
  Digit strings under \<^verbatim>\<open>parseInt\<close> and \<^verbatim>\<open>Number\<close>.
\<close>

lemmas eval_number = parseInt_def parseInt_string_def Let_def is_radix_digit_def digit_val_def
  digits_value_def fl_0 fl_1 fl_numeral strict_ne_def

lemmas eval_Number = Number_def trim_def non_decimal_literal_def exponent_part_def
  unsigned_decimal_literal_def is_digit_def pow10_def fl_neg_numeral fl_neg_1

lemma is_digit_not_ws: "is_digit c \<Longrightarrow> \<not> is_ws c"
  by (auto simp: is_digit_def is_ws_def)

lemma trim_digits:
  assumes "list_all is_digit t"
  shows "trim t = t"
proof -
  have "\<forall>c\<in>set t. \<not> is_ws c" using assms by (auto simp: list_all_iff is_digit_not_ws)
  then have "dropWhile is_ws t = t" and "dropWhile is_ws (rev t) = rev t"
    by (simp_all add: dropWhile_none)
  then show ?thesis by (simp add: trim_def)
qed

lemma Number_digits:
  assumes "t \<noteq> []" and "list_all is_digit t"
  shows "Number t = fl (of_nat (digits_value 10 t))"
proof -
  obtain c cs where t: "t = c # cs" using assms(1) by (cases t) auto
  have all: "\<forall>x\<in>set t. is_digit x" using assms(2) by (simp add: list_all_iff)
  have c: "is_digit c" using all t by simp
  have second: "cs \<noteq> [] \<Longrightarrow> is_digit (hd cs)" using all t by (cases cs) simp_all
  have prefix2: "take 2 t \<noteq> [48, x]" if "\<not> is_digit x" for x
    using that second t by (cases cs) auto
  have no_prefix: "take 2 t \<noteq> lit ''0x''" "take 2 t \<noteq> lit ''0X''" "take 2 t \<noteq> lit ''0o''"
    "take 2 t \<noteq> lit ''0O''" "take 2 t \<noteq> lit ''0b''" "take 2 t \<noteq> lit ''0B''"
    using prefix2 [of 120] prefix2 [of 88] prefix2 [of 111] prefix2 [of 79] prefix2 [of 98]
      prefix2 [of 66]
    by (simp_all add: lit_def is_digit_def)
  have no_sign: "take 1 t \<noteq> lit ''-''" "take 1 t \<noteq> lit ''+''"
    using c by (auto simp: t lit_def is_digit_def)
  have no_inf: "t \<noteq> lit ''Infinity''"
    using c by (auto simp: t lit_def is_digit_def)
  have tw: "takeWhile is_digit t = t" and dw: "dropWhile is_digit t = []"
    using all by simp_all
  have "unsigned_decimal_literal t = Some (of_nat (digits_value 10 t))"
    by (simp add: unsigned_decimal_literal_def tw dw exponent_part_def pow10_def lit_def assms(1))
  then show ?thesis
    using no_prefix no_sign no_inf assms(1)
    by (simp add: Number_def trim_digits [OF assms(2)])
qed

lemma digits_value_snoc: "digits_value radix (ds @ [c]) = digits_value radix ds * radix + digit_val c"
  by (simp add: digits_value_def)

lemma decimal_not_Nil: "decimal n \<noteq> []"
  by (subst decimal.simps) simp

lemma decimal_digits: "list_all is_digit (decimal n)"
proof (induction n rule: decimal.induct)
  case (1 n)
  show ?case
  proof (cases "n < 10")
    case True
    then show ?thesis by (subst decimal.simps) (simp add: is_digit_def)
  next
    case False
    have "n mod 10 < 10" by simp
    then have "is_digit (48 + n mod 10)" unfolding is_digit_def by linarith
    then show ?thesis using 1 False by (subst decimal.simps) simp
  qed
qed

lemma digits_value_decimal: "digits_value 10 (decimal n) = n"
proof (induction n rule: decimal.induct)
  case (1 n)
  show ?case
  proof (cases "n < 10")
    case True
    then show ?thesis by (subst decimal.simps) (simp add: digits_value_def digit_val_def)
  next
    case False
    have "n mod 10 < 10" by simp
    then have "digit_val (48 + n mod 10) = n mod 10" by (simp add: digit_val_def)
    then show ?thesis using 1 False by (subst decimal.simps) (simp add: digits_value_snoc)
  qed
qed

lemma is_digit_radix_10: "is_digit c \<Longrightarrow> is_radix_digit 10 c"
  by (auto simp: is_digit_def is_radix_digit_def digit_val_def)

lemma parseInt_digits:
  assumes "t \<noteq> []" and "list_all is_digit t"
  shows "parseInt (Some t) = fl (of_nat (digits_value 10 t))"
proof -
  obtain c cs where t: "t = c # cs" using assms(1) by (cases t) auto
  have all: "\<forall>x\<in>set t. is_digit x" using assms(2) by (simp add: list_all_iff)
  have c: "is_digit c" using all t by simp
  have ws: "dropWhile is_ws t = t" using c by (simp add: t is_digit_not_ws)
  have no_sign: "take 1 t \<noteq> lit ''-''" "take 1 t \<noteq> lit ''+''"
    using c by (auto simp: t lit_def is_digit_def)
  have "cs \<noteq> [] \<Longrightarrow> is_digit (hd cs)" using all t by (cases cs) simp_all
  then have no_hex: "take 2 t \<noteq> lit ''0x''" "take 2 t \<noteq> lit ''0X''"
    by (cases cs; auto simp: t lit_def is_digit_def)+
  have tw: "takeWhile (is_radix_digit 10) t = t"
    using all by (simp add: is_digit_radix_10)
  have e: "(take 1 t = lit ''-'') = False" "(take 1 t = lit ''+'') = False"
    "(take 2 t = lit ''0x'') = False" "(take 2 t = lit ''0X'') = False"
    using no_sign no_hex by simp_all
  have "parseInt (Some t) = (if t = [] then NaN else fl (of_nat (digits_value 10 t)))"
    by (simp only: parseInt_def parseInt_string_def Let_def option.case ws e simp_thms if_False tw)
  then show ?thesis using assms(1) by simp
qed

lemma integral_parseInt_string: "integral (parseInt_string s)"
proof -
  have "integral NaN" by (simp add: integral_def)
  moreover have "integral (fl (of_nat m))" for m
    using integral_fl_of_int [of "int m"] by simp
  moreover have "integral (fl (- of_nat m))" for m
    using integral_fl_of_int [of "- int m"] by simp
  ultimately show ?thesis by (simp add: parseInt_string_def Let_def)
qed

lemma integral_parseInt: "integral (parseInt x)"
  by (simp add: parseInt_def integral_parseInt_string)

lemma sample_value:
  assumes "t \<noteq> []" and "list_all is_digit t" and "digits_value 10 t \<le> 255"
  shows "ToUint8 (Number t) = of_nat (digits_value 10 t)"
proof -
  have "digits_value 10 t \<le> 2 ^ 53" using assms(3) by simp
  then have "Number t = Fin (of_nat (digits_value 10 t))"
    by (simp only: Number_digits [OF assms(1,2)] fl_nat_exact)
  then show ?thesis by (simp only: ToUint8_of_nat)
qed

section \<open>Decoding\<close>

text \<open>
  ASCII bytes decode to themselves, and a decoded text that starts with ASCII characters
  comes from a buffer that starts with the same bytes, after a byte order mark at most.
\<close>

lemma unat_ascii: "map unat (ascii s) = map of_char s"
  by (simp add: ascii_def unat_of_nat)

lemma take_ascii: "take n (ascii s) = ascii (take n s)"
  by (simp add: ascii_def take_map)

lemma utf8_code_points_ascii: "list_all (\<lambda>b. b < 128) bs \<Longrightarrow> utf8_code_points bs = bs"
  by (induction bs) simp_all

lemma concat_utf16_units_bmp:
  "list_all (\<lambda>b. b < 65536) cps \<Longrightarrow> concat (map utf16_units cps) = cps"
  by (induction cps) (simp_all add: utf16_units_def)

lemma decode_ascii:
  assumes "list_all (\<lambda>c. of_char c < (128::nat)) s"
  shows "decode (ascii s) = lit s"
proof -
  have a: "list_all (\<lambda>b. b < 128) (lit s)"
    using assms by (simp add: lit_def list_all_iff)
  then have b: "utf8_code_points (lit s) = lit s"
    by (rule utf8_code_points_ascii)
  have c: "strip_bom (lit s) = lit s"
    using a by (cases "lit s") (auto simp: strip_bom_def)
  have d: "list_all (\<lambda>b. b < 65536) (lit s)"
    using a by (auto simp: list_all_iff)
  show ?thesis
    by (simp add: decode_def unat_ascii b c concat_utf16_units_bmp [OF d] flip: lit_def)
qed

lemma decode_ascii_bytes:
  assumes "list_all (\<lambda>x. unat x < 128) bytes"
  shows "decode bytes = map unat bytes"
proof -
  have a: "list_all (\<lambda>x. x < 128) (map unat bytes)"
    using assms by (simp add: list_all_iff)
  have c: "strip_bom (map unat bytes) = map unat bytes"
    using a by (cases bytes) (auto simp: strip_bom_def)
  have d: "list_all (\<lambda>x. x < 65536) (map unat bytes)"
    using a by (auto simp: list_all_iff)
  show ?thesis
    by (simp only: decode_def utf8_code_points_ascii [OF a] c concat_utf16_units_bmp [OF d])
qed

lemma decode_Nil: "decode [] = []"
  by (simp add: decode_def strip_bom_def)

lemmas eval_text = take_ascii decode_ascii lit_def split_ws_Cons split_ws_Nil is_ws_def item_def

lemma mod_window:
  fixes l n q :: nat
  assumes "n * q \<le> l" and "l < n * q + n"
  shows "l mod n = l - n * q"
proof -
  have "l = (l - n * q) + n * q" using assms(1) by simp
  then have "l mod n = ((l - n * q) + n * q) mod n" by simp
  also have "\<dots> = (l - n * q) mod n" by (rule mod_mult_self2)
  also have "\<dots> = l - n * q" using assms by simp
  finally show ?thesis .
qed

lemma value2: "194 \<le> l \<Longrightarrow> l \<le> 223 \<Longrightarrow> 128 \<le> l mod 32 * 64 + (c::nat) mod 64"
  using mod_window [of 32 6 l] by simp

lemma value3:
  assumes "224 \<le> l" and "l \<le> 239" and "continuation l c"
  shows "2048 \<le> l mod 16 * 4096 + c mod 64 * 64 + (d::nat) mod 64"
proof (cases "l = 224")
  case True
  then have "160 \<le> c" "c \<le> 191" using assms(3) by (simp_all add: continuation_def)
  then have "32 \<le> c mod 64" using mod_window [of 64 2 c] by simp
  then show ?thesis by linarith
next
  case False
  then have "1 \<le> l mod 16" using assms(1,2) mod_window [of 16 14 l] by simp
  then show ?thesis by linarith
qed

lemma value4:
  assumes "240 \<le> l" and "l \<le> 244" and "continuation l c"
  shows "65536 \<le> l mod 8 * 262144 + c mod 64 * 4096 + (d::nat) mod 64 * 64 + (e::nat) mod 64"
proof (cases "l = 240")
  case True
  then have "144 \<le> c" "c \<le> 191" using assms(3) by (simp_all add: continuation_def)
  then have "16 \<le> c mod 64" using mod_window [of 64 2 c] by simp
  then show ?thesis by linarith
next
  case False
  then have "1 \<le> l mod 8" using assms(1,2) mod_window [of 8 30 l] by simp
  then show ?thesis by linarith
qed

lemma utf8_code_points_lead:
  assumes "128 \<le> l"
  shows "\<exists>c cs. utf8_code_points (l # bs) = c # cs \<and> 128 \<le> c"
proof -
  have 2: "128 \<le> l mod 32 * 64 + c mod 64" if "194 \<le> l" "l \<le> 223" for c
    using that by (rule value2)
  have 3: "128 \<le> l mod 16 * 4096 + c mod 64 * 64 + d mod 64"
    if "224 \<le> l" "l \<le> 239" "continuation l c" for c d
    using value3 [OF that, of d] by linarith
  have 4: "128 \<le> l mod 8 * 262144 + c mod 64 * 4096 + d mod 64 * 64 + e mod 64"
    if "240 \<le> l" "l \<le> 244" "continuation l c" for c d e
    using value4 [OF that, of d e] by linarith
  show ?thesis
    using assms by (auto split: list.splits simp: 2 3 4)
qed

lemma utf8_code_points_first:
  assumes "utf8_code_points bs = c # cs" and "c < 128"
  shows "\<exists>bs'. bs = c # bs' \<and> utf8_code_points bs' = cs"
proof (cases bs)
  case Nil
  then show ?thesis using assms by simp
next
  case (Cons l bs')
  show ?thesis
  proof (cases "l < 128")
    case True
    then show ?thesis using assms Cons by simp
  next
    case False
    then have "128 \<le> l" by simp
    from utf8_code_points_lead [OF this, of bs'] show ?thesis using assms Cons by auto
  qed
qed

lemma bom_value3:
  assumes "224 \<le> l" and "l \<le> 239" and "continuation l c" and "trailing d"
    and "l mod 16 * 4096 + c mod 64 * 64 + d mod 64 = 65279"
  shows "l = 239 \<and> c = 187 \<and> d = 191"
proof -
  have c: "128 \<le> c" "c \<le> 191" using assms(3) by (auto simp: continuation_def split: if_splits)
  have d: "128 \<le> d" "d \<le> 191" using assms(4) by (auto simp: trailing_def)
  have "l mod 16 = l - 224" using assms(1,2) mod_window [of 16 14 l] by simp
  moreover have "c mod 64 = c - 128" using c mod_window [of 64 2 c] by simp
  moreover have "d mod 64 = d - 128" using d mod_window [of 64 2 d] by simp
  ultimately have eq: "(l - 224) * 4096 + (c - 128) * 64 + (d - 128) = 65279"
    using assms(5) by simp
  have "\<not> l \<le> 238" using eq c d by linarith
  then have l: "l = 239" using assms(2) by simp
  have "\<not> c \<le> 186" and "\<not> 188 \<le> c" using eq l d by linarith+
  then have "c = 187" by simp
  then show ?thesis using eq l d by simp
qed

lemma bom_value2: "l mod 32 * 64 + c mod 64 \<noteq> (65279::nat)"
proof -
  have "l mod 32 < 32" "c mod 64 < 64" by simp_all
  then show ?thesis by linarith
qed

lemma utf8_code_points_bom:
  assumes "utf8_code_points bs = 65279 # cs"
  shows "\<exists>bs'. bs = 239 # 187 # 191 # bs' \<and> utf8_code_points bs' = cs"
proof (cases bs)
  case Nil
  then show ?thesis using assms by simp
next
  case (Cons l bs')
  note a = assms [unfolded Cons]
  consider (ascii) "l < 128" | (other) "128 \<le> l" "l < 194 \<or> 244 < l"
    | (two) "194 \<le> l" "l \<le> 223" | (three) "224 \<le> l" "l \<le> 239"
    | (four) "240 \<le> l" "l \<le> 244"
    by linarith
  then show ?thesis
  proof cases
    case ascii
    then show ?thesis using a by simp
  next
    case other
    then have "utf8_code_points (l # bs') = 65533 # utf8_code_points bs'" by auto
    then show ?thesis using a by simp
  next
    case two
    then have "utf8_code_points (l # bs') =
        (case bs' of [] \<Rightarrow> [65533]
         | c # cs \<Rightarrow> if continuation l c then (l mod 32 * 64 + c mod 64) # utf8_code_points cs
                     else 65533 # utf8_code_points bs')"
      by simp
    then show ?thesis using a bom_value2 by (cases bs') (auto split: if_splits)
  next
    case three
    then have eq: "utf8_code_points (l # bs') =
        (case bs' of [] \<Rightarrow> [65533]
         | c # cs \<Rightarrow>
             if continuation l c then
               (case cs of [] \<Rightarrow> [65533]
                | d # ds \<Rightarrow>
                    if trailing d
                    then (l mod 16 * 4096 + c mod 64 * 64 + d mod 64) # utf8_code_points ds
                    else 65533 # utf8_code_points cs)
             else 65533 # utf8_code_points bs')"
      by simp
    show ?thesis
    proof (cases bs')
      case Nil
      then show ?thesis using a eq by simp
    next
      case c1: (Cons c cs1)
      show ?thesis
      proof (cases cs1)
        case Nil
        then show ?thesis using a eq c1 by (simp split: if_splits)
      next
        case c2: (Cons d ds)
        have "continuation l c \<and> trailing d \<and>
              l mod 16 * 4096 + c mod 64 * 64 + d mod 64 = 65279 \<and> utf8_code_points ds = cs"
          using a eq c1 c2 by (simp split: if_splits)
        then show ?thesis using bom_value3 [OF three, of c d] Cons c1 c2 by simp
      qed
    qed
  next
    case four
    then have eq: "utf8_code_points (l # bs') =
        (case bs' of [] \<Rightarrow> [65533]
         | c # cs \<Rightarrow>
             if continuation l c then
               (case cs of [] \<Rightarrow> [65533]
                | d # ds \<Rightarrow>
                    if trailing d then
                      (case ds of [] \<Rightarrow> [65533]
                       | e # es \<Rightarrow>
                           if trailing e
                           then (l mod 8 * 262144 + c mod 64 * 4096 + d mod 64 * 64 + e mod 64)
                                  # utf8_code_points es
                           else 65533 # utf8_code_points ds)
                    else 65533 # utf8_code_points cs)
             else 65533 # utf8_code_points bs')"
      by simp
    have 4: "l mod 8 * 262144 + c mod 64 * 4096 + d mod 64 * 64 + e mod 64 \<noteq> 65279"
      if "continuation l c" for c d e
      using value4 [OF four that, of d e] by linarith
    show ?thesis
    proof (cases bs')
      case Nil
      then show ?thesis using a eq by simp
    next
      case c1: (Cons c cs1)
      show ?thesis
      proof (cases cs1)
        case Nil
        then show ?thesis using a eq c1 by (simp split: if_splits)
      next
        case c2: (Cons d ds)
        show ?thesis
        proof (cases ds)
          case Nil
          then show ?thesis using a eq c1 c2 by (simp split: if_splits)
        next
          case c3: (Cons e es)
          show ?thesis using a eq c1 c2 c3 4 [of c d e] by (simp split: if_splits)
        qed
      qed
    qed
  qed
qed

lemma utf16_units_first:
  assumes "concat (map utf16_units cps) = c # s" and "c < 128"
  shows "\<exists>cps'. cps = c # cps' \<and> concat (map utf16_units cps') = s"
proof (cases cps)
  case Nil
  then show ?thesis using assms by simp
next
  case (Cons cp cps')
  then show ?thesis using assms by (auto simp: utf16_units_def split: if_splits)
qed

lemma decode_P3_prefix:
  assumes "decode data = 80 # 51 # 32 # rest"
  shows "item (split_ws (decode (take 20 data))) 0 = Some (lit ''P3'')"
proof -
  define cps where "cps = utf8_code_points (map unat data)"
  have "concat (map utf16_units (strip_bom cps)) = 80 # 51 # 32 # rest"
    using assms by (simp add: decode_def cps_def)
  then obtain c1 where c1: "strip_bom cps = 80 # c1" "concat (map utf16_units c1) = 51 # 32 # rest"
    using utf16_units_first [of "strip_bom cps" 80] by auto
  then obtain c2 where c2: "c1 = 51 # c2" "concat (map utf16_units c2) = 32 # rest"
    using utf16_units_first [of c1 51] by auto
  then obtain c3 where c3: "c2 = 32 # c3"
    using utf16_units_first [of c2 32] by auto
  have sb: "strip_bom cps = 80 # 51 # 32 # c3" by (simp add: c1 c2 c3)
  have ws: "is_ws 32" "\<not> is_ws 80" "\<not> is_ws 51" by (simp_all add: is_ws_def)
  have tok: "hd (split_ws (80 # 51 # 32 # s)) = lit ''P3''" for s
    using ws by (simp add: hd_split_ws lit_def)
  have u80: "utf16_units 80 = [80]" and u51: "utf16_units 51 = [51]" and u32: "utf16_units 32 = [32]"
    by (simp_all add: utf16_units_def)
  from sb consider "cps = 80 # 51 # 32 # c3" | "cps = 65279 # 80 # 51 # 32 # c3"
    by (cases cps) (auto simp: strip_bom_def split: if_splits)
  then have "hd (split_ws (decode (take 20 data))) = lit ''P3''"
  proof cases
    case 1
    then obtain b1 where "map unat data = 80 # b1" "utf8_code_points b1 = 51 # 32 # c3"
      using utf8_code_points_first [of "map unat data" 80] by (auto simp: cps_def)
    moreover then obtain b2 where "b1 = 51 # b2" "utf8_code_points b2 = 32 # c3"
      using utf8_code_points_first [of b1 51] by auto
    moreover then obtain b3 where "b2 = 32 # b3"
      using utf8_code_points_first [of b2 32] by auto
    ultimately have "map unat data = 80 # 51 # 32 # b3" by simp
    then obtain d1 d2 d3 ds where "data = d1 # d2 # d3 # ds" "unat d1 = 80" "unat d2 = 51"
      "unat d3 = 32"
      by (auto simp: map_eq_Cons_conv)
    then have "decode (take 20 data) =
        80 # 51 # 32 # concat (map utf16_units (utf8_code_points (map unat (take 17 ds))))"
      by (simp add: decode_def strip_bom_def u80 u51 u32)
    then show ?thesis by (simp only: tok)
  next
    case 2
    then obtain b0 where b0: "map unat data = 239 # 187 # 191 # b0"
      "utf8_code_points b0 = 80 # 51 # 32 # c3"
      using utf8_code_points_bom [of "map unat data"] by (auto simp: cps_def)
    then obtain b1 where "b0 = 80 # b1" "utf8_code_points b1 = 51 # 32 # c3"
      using utf8_code_points_first [of b0 80] by auto
    moreover then obtain b2 where "b1 = 51 # b2" "utf8_code_points b2 = 32 # c3"
      using utf8_code_points_first [of b1 51] by auto
    moreover then obtain b3 where "b2 = 32 # b3"
      using utf8_code_points_first [of b2 32] by auto
    ultimately have "map unat data = 239 # 187 # 191 # 80 # 51 # 32 # b3" using b0 by simp
    then obtain e1 e2 e3 d1 d2 d3 ds where "data = e1 # e2 # e3 # d1 # d2 # d3 # ds"
      "unat e1 = 239" "unat e2 = 187" "unat e3 = 191" "unat d1 = 80" "unat d2 = 51" "unat d3 = 32"
      by (auto simp: map_eq_Cons_conv)
    then have "decode (take 20 data) =
        80 # 51 # 32 # concat (map utf16_units (utf8_code_points (map unat (take 14 ds))))"
      by (simp add: decode_def strip_bom_def u80 u51 u32 continuation_def trailing_def)
    then show ?thesis by (simp only: tok)
  qed
  then show ?thesis by (simp add: item_split_ws_0)
qed

section \<open>The paths through the parser\<close>


lemma parseHeaderAttributes_ok:
  "item hl 3 = Some (lit ''255'') \<Longrightarrow>
   parseHeaderAttributes hl =
     Inr (item hl 0, parseInt (item hl 1), parseInt (item hl 2), parseInt (Some (lit ''255'')))"
  by (simp add: parseHeaderAttributes_def Let_def)

lemma parseHeaderAttributes_Inr:
  "parseHeaderAttributes hl = Inr x \<Longrightarrow> item hl 3 = Some (lit ''255'')"
  by (simp add: parseHeaderAttributes_def Let_def split: if_splits)



lemma parsePPMP6_format:
  "item (split_ws (decode (take 20 data))) 3 = Some (lit ''255'') \<Longrightarrow>
   item (split_ws (decode (take 20 data))) 0 \<noteq> Some (lit ''P6'') \<Longrightarrow>
   parsePPMP6 data = Inl (UnsupportedFormat (item (split_ws (decode (take 20 data))) 0))"
  by (simp add: parsePPMP6_def parseHeaderAttributes_ok)

lemma parsePPMP3_format:
  "item (split_ws (decode data)) 3 = Some (lit ''255'') \<Longrightarrow>
   item (split_ws (decode data)) 0 \<noteq> Some (lit ''P3'') \<Longrightarrow>
   parsePPMP3 data = Inl (UnsupportedFormat (item (split_ws (decode data)) 0))"
  by (simp add: parsePPMP3_def parseHeaderAttributes_ok)

lemma parsePPM_P6:
  "item (split_ws (decode (take 20 data))) 0 = Some (lit ''P6'') \<Longrightarrow> parsePPM data = parsePPMP6 data"
  by (simp add: parsePPM_def)

lemma parsePPM_P3:
  "item (split_ws (decode (take 20 data))) 0 = Some (lit ''P3'') \<Longrightarrow> parsePPM data = parsePPMP3 data"
  by (simp add: parsePPM_def lit_def)

lemma parsePPM_other:
  "item (split_ws (decode (take 20 data))) 0 \<noteq> Some (lit ''P6'') \<Longrightarrow>
   item (split_ws (decode (take 20 data))) 0 \<noteq> Some (lit ''P3'') \<Longrightarrow>
   parsePPM data = Inl (UnsupportedFormat (item (split_ws (decode (take 20 data))) 0))"
  by (simp add: parsePPM_def)

lemma parsePPMP6_Inr:
  assumes "parsePPMP6 data = Inr img"
  shows "item (split_ws (decode (take 20 data))) 3 = Some (lit ''255'')"
    and "item (split_ws (decode (take 20 data))) 0 = Some (lit ''P6'')"
    and "width img = parseInt (item (split_ws (decode (take 20 data))) 1)"
    and "height img = parseInt (item (split_ws (decode (take 20 data))) 2)"
    and "maxColorValue img = parseInt (Some (lit ''255''))"
    and "format img = P6"
    and "pixelData img = subarray data (indexOf (decode (take 20 data)) (lit ''255'') + 4)"
    and "jsmul (jsmul (width img) (height img)) (Fin 3) = Fin (of_nat (length (pixelData img)))"
proof -
  let ?hl = "split_ws (decode (take 20 data))"
  from assms obtain x where "parseHeaderAttributes ?hl = Inr x"
    by (auto simp: parsePPMP6_def Let_def split: sum.splits)
  then show tok: "item ?hl 3 = Some (lit ''255'')" by (rule parseHeaderAttributes_Inr)
  note ok = parseHeaderAttributes_ok [OF tok]
  show "item ?hl 0 = Some (lit ''P6'')"
    using assms by (simp add: parsePPMP6_def Let_def ok split: if_splits)
  show "width img = parseInt (item ?hl 1)" "height img = parseInt (item ?hl 2)"
    "maxColorValue img = parseInt (Some (lit ''255''))" "format img = P6"
    "pixelData img = subarray data (indexOf (decode (take 20 data)) (lit ''255'') + 4)"
    using assms by (auto simp: parsePPMP6_def Let_def ok split: if_splits)
  show "jsmul (jsmul (width img) (height img)) (Fin 3) = Fin (of_nat (length (pixelData img)))"
    using assms by (auto simp: parsePPMP6_def Let_def ok strict_ne_def split: if_splits)
qed

lemma parsePPMP3_Inr:
  assumes "parsePPMP3 data = Inr img"
  shows "item (split_ws (decode data)) 3 = Some (lit ''255'')"
    and "item (split_ws (decode data)) 0 = Some (lit ''P3'')"
    and "width img = parseInt (item (split_ws (decode data)) 1)"
    and "height img = parseInt (item (split_ws (decode data)) 2)"
    and "maxColorValue img = parseInt (Some (lit ''255''))"
    and "format img = P3"
    and "pixelData img =
           map ToUint8 (map Number (split_ws (join (lit ''\<newline>'') (drop 4 (split_ws (decode data))))))"
    and "jsmul (jsmul (width img) (height img)) (Fin 3) = Fin (of_nat (length (pixelData img)))"
proof -
  let ?hl = "split_ws (decode data)"
  from assms obtain x where "parseHeaderAttributes ?hl = Inr x"
    by (auto simp: parsePPMP3_def Let_def split: sum.splits)
  then show tok: "item ?hl 3 = Some (lit ''255'')" by (rule parseHeaderAttributes_Inr)
  note ok = parseHeaderAttributes_ok [OF tok]
  show "item ?hl 0 = Some (lit ''P3'')"
    using assms by (simp add: parsePPMP3_def Let_def ok split: if_splits)
  show "width img = parseInt (item ?hl 1)" "height img = parseInt (item ?hl 2)"
    "maxColorValue img = parseInt (Some (lit ''255''))" "format img = P3"
    "pixelData img =
       map ToUint8 (map Number (split_ws (join (lit ''\<newline>'') (drop 4 (split_ws (decode data))))))"
    using assms by (auto simp: parsePPMP3_def Let_def ok split: if_splits)
  show "jsmul (jsmul (width img) (height img)) (Fin 3) = Fin (of_nat (length (pixelData img)))"
    using assms by (auto simp: parsePPMP3_def Let_def ok strict_ne_def split: if_splits)
qed

lemma parsePPM_Inr:
  assumes "parsePPM data = Inr img"
  shows "parsePPMP6 data = Inr img \<or> parsePPMP3 data = Inr img"
  using assms by (simp add: parsePPM_def Let_def split: if_splits)

lemma size_invariant_P6:
  assumes "parsePPMP6 data = Inr img"
  shows "jsmul (jsmul (width img) (height img)) (Fin 3) = Fin (of_nat (length (pixelData img))) \<and>
         (length (pixelData img) < 2 ^ 53 \<longrightarrow>
            (\<exists>w h. width img = Fin (of_int w) \<and> height img = Fin (of_int h) \<and>
                   w * h * 3 = int (length (pixelData img))))"
  using parsePPMP6_Inr(3,4,8) [OF assms] integral_parseInt size_product_exact
  by metis

lemma size_invariant_P3:
  assumes "parsePPMP3 data = Inr img"
  shows "jsmul (jsmul (width img) (height img)) (Fin 3) = Fin (of_nat (length (pixelData img))) \<and>
         (length (pixelData img) < 2 ^ 53 \<longrightarrow>
            (\<exists>w h. width img = Fin (of_int w) \<and> height img = Fin (of_int h) \<and>
                   w * h * 3 = int (length (pixelData img))))"
  using parsePPMP3_Inr(3,4,8) [OF assms] integral_parseInt size_product_exact
  by metis

lemma parsePPMP6_mismatch:
  assumes "item (split_ws (decode (take 20 data))) 3 = Some (lit ''255'')"
    and "item (split_ws (decode (take 20 data))) 0 = Some (lit ''P6'')"
    and "strict_ne
           (Fin (of_nat (length (subarray data (indexOf (decode (take 20 data)) (lit ''255'') + 4)))))
           (jsmul (jsmul (parseInt (item (split_ws (decode (take 20 data))) 1))
                         (parseInt (item (split_ws (decode (take 20 data))) 2))) (Fin 3))"
  shows "parsePPMP6 data = Inl PixelDataSizeMismatch"
  using assms by (simp add: parsePPMP6_def Let_def parseHeaderAttributes_ok)

lemma parsePPMP3_mismatch:
  assumes "item (split_ws (decode data)) 3 = Some (lit ''255'')"
    and "item (split_ws (decode data)) 0 = Some (lit ''P3'')"
    and "strict_ne
           (Fin (of_nat (length (drop 4 (split_ws (decode data))))))
           (jsmul (jsmul (parseInt (item (split_ws (decode data)) 1))
                         (parseInt (item (split_ws (decode data)) 2))) (Fin 3))"
  shows "parsePPMP3 data = Inl PixelDataSizeMismatch"
proof -
  let ?hl = "split_ws (decode data)"
  let ?size = "jsmul (jsmul (parseInt (item ?hl 1)) (parseInt (item ?hl 2))) (Fin 3)"
  have "strict_ne (Fin (of_nat (length (split_ws (join (lit ''\<newline>'') (drop 4 ?hl)))))) ?size"
  proof (cases "drop 4 ?hl = []")
    case True
    have "?size \<noteq> Fin 1" by (intro size_ne_1 integral_parseInt)
    then show ?thesis by (simp add: True split_ws_Nil strict_ne_def)
  next
    case False
    then show ?thesis using assms(3) by (simp add: resplit_drop4)
  qed
  then show ?thesis
    using assms(1,2) by (simp add: parsePPMP3_def Let_def parseHeaderAttributes_ok)
qed

lemma parsePPMP3_tokens:
  assumes "parsePPMP3 data = Inr img"
  shows "drop 4 (split_ws (decode data)) \<noteq> []"
    and "pixelData img = map (\<lambda>t. ToUint8 (Number t)) (drop 4 (split_ws (decode data)))"
proof -
  let ?hl = "split_ws (decode data)"
  note facts = parsePPMP3_Inr [OF assms]
  show ne: "drop 4 ?hl \<noteq> []"
  proof
    assume "drop 4 ?hl = []"
    then have "length (pixelData img) = 1" by (simp add: facts(7) split_ws_Nil)
    then have "jsmul (jsmul (width img) (height img)) (Fin 3) = Fin 1" using facts(8) by simp
    moreover have "integral (width img)" "integral (height img)"
      by (simp_all add: facts(3,4) integral_parseInt)
    ultimately show False using size_ne_1 by blast
  qed
  show "pixelData img = map (\<lambda>t. ToUint8 (Number t)) (drop 4 ?hl)"
    by (simp add: facts(7) resplit_drop4 [OF ne])
qed

lemma parsePPMP6_no_image:
  assumes "strict_ne (Fin (of_nat (length (P6_payload data)))) (declared_size (prefix_tokens data))"
  shows "parsePPMP6 data \<noteq> Inr img"
proof
  assume ok: "parsePPMP6 data = Inr img"
  have "declared_size (prefix_tokens data) = Fin (of_nat (length (P6_payload data)))"
    using parsePPMP6_Inr(8) [OF ok] by (simp only: parsePPMP6_Inr(3,4,7) [OF ok])
  then show False using assms by (simp add: strict_ne_def)
qed

lemma parsePPMP3_no_image:
  assumes "strict_ne (Fin (of_nat (length (drop 4 (text_tokens data)))))
             (declared_size (text_tokens data))"
  shows "parsePPMP3 data \<noteq> Inr img"
proof
  assume ok: "parsePPMP3 data = Inr img"
  have "length (pixelData img) = length (drop 4 (text_tokens data))"
    by (simp only: parsePPMP3_tokens(2) [OF ok] length_map)
  then have "declared_size (text_tokens data) =
      Fin (of_nat (length (drop 4 (text_tokens data))))"
    using parsePPMP3_Inr(8) [OF ok] by (simp only: parsePPMP3_Inr(3,4) [OF ok])
  then show False using assms by (simp add: strict_ne_def)
qed

lemma typed_get_represents:
  assumes "represents i x" and "length a \<le> 2 ^ 53"
  shows "typed_get a x = item a i"
proof (cases "i \<le> 2 ^ 53")
  case True
  then have "x = Fin (of_nat i)" using assms(1) by (simp add: represents_def)
  then show ?thesis by (simp add: item_def)
next
  case False
  then have none: "item a i = None" using assms(2) by (simp add: item_def)
  from False assms(1) consider "x = PInf" | k where "x = Fin (of_int k)" "2 ^ 53 \<le> k"
    by (auto simp: represents_def)
  then show ?thesis
  proof cases
    case 1
    then show ?thesis by (simp add: none)
  next
    case 2
    have "int (length a) \<le> int (2 ^ 53)" using assms(2) by (simp only: of_nat_le_iff)
    then have "\<not> k < int (length a)" using 2(2) by simp
    then show ?thesis by (simp add: 2(1) none)
  qed
qed

lemma getPixel_item:
  assumes "width img = Fin (of_nat w)" and "length (pixelData img) \<le> 2 ^ 53"
  shows "getPixel img (Fin (of_nat x)) (Fin (of_nat y)) =
           \<lparr>r = item (pixelData img) ((y * w + x) * 3),
            g = item (pixelData img) ((y * w + x) * 3 + 1),
            b = item (pixelData img) ((y * w + x) * 3 + 2)\<rparr>"
proof -
  define index where
    "index = jsmul (jsadd (jsmul (Fin (of_nat y)) (width img)) (Fin (of_nat x))) (Fin 3)"
  have "jsmul (Fin (of_nat y)) (width img) = fl (of_nat (y * w))" by (simp add: assms(1))
  then have "represents (y * w) (jsmul (Fin (of_nat y)) (width img))"
    by (simp only: represents_fl)
  then have i: "represents ((y * w + x) * 3) index"
    unfolding index_def by (intro represents_mult3 represents_add)
  have "represents ((y * w + x) * 3 + 1) (jsadd index (Fin (of_nat 1)))"
    and "represents ((y * w + x) * 3 + 2) (jsadd index (Fin (of_nat 2)))"
    using i by (rule represents_add)+
  then have i1: "represents ((y * w + x) * 3 + 1) (jsadd index (Fin 1))"
    and i2: "represents ((y * w + x) * 3 + 2) (jsadd index (Fin 2))"
    by simp_all
  show ?thesis
    unfolding getPixel_def Let_def index_def [symmetric]
    by (simp only: typed_get_represents [OF i assms(2)] typed_get_represents [OF i1 assms(2)]
        typed_get_represents [OF i2 assms(2)])
qed

lemma parsePPMP6_example:
  "parsePPMP6 (ascii ''P6 2 1 255 abcdef'') =
     Inr \<lparr>width = Fin 2, height = Fin 1, pixelData = ascii ''abcdef'', maxColorValue = Fin 255,
          format = P6\<rparr>"
proof -
  have h: "decode (take 20 (ascii ''P6 2 1 255 abcdef'')) = lit ''P6 2 1 255 abcdef''"
    by (simp add: take_ascii decode_ascii)
  show ?thesis
    unfolding parsePPMP6_def h
    by (simp add: lit_def split_ws_Cons split_ws_Nil is_ws_def item_def parseHeaderAttributes_def
        eval_number indexOf_def subarray_def ascii_def)
qed

lemma parsePPM_example:
  "parsePPM (ascii ''P6 2 1 255 abcdef'') =
     Inr \<lparr>width = Fin 2, height = Fin 1, pixelData = ascii ''abcdef'', maxColorValue = Fin 255,
          format = P6\<rparr>"
proof -
  have "item (split_ws (decode (take 20 (ascii ''P6 2 1 255 abcdef'')))) 0 = Some (lit ''P6'')"
    by (simp add: eval_text)
  then show ?thesis by (simp only: parsePPM_P6 parsePPMP6_example)
qed

section \<open>Plain PPM texts\<close>

text \<open>
  The tokens of a well-formed plain PPM text and the samples they denote; for an empty
  image \<^verbatim>\<open>parsePPMP3\<close> counts an empty string as a sample.
\<close>

lemma split_ws_body:
  assumes "well_formed_body body" and "\<forall>c\<in>set t0. \<not> is_ws c"
  shows "split_ws (t0 @ concat (map (\<lambda>(sep, t). sep @ t) body)) = t0 # map snd body"
  using assms
proof (induction body arbitrary: t0)
  case Nil
  then show ?case by (simp add: split_ws_nws)
next
  case (Cons p body)
  obtain sep t where p: "p = (sep, t)" by (cases p)
  have wf: "sep \<noteq> []" "list_all is_ws sep" "t \<noteq> []" "list_all is_digit t"
    and wf': "well_formed_body body"
    using Cons.prems(1) by (auto simp: well_formed_body_def p)
  have t: "\<forall>c\<in>set t. \<not> is_ws c" using wf(4) by (auto simp: list_all_iff is_digit_not_ws)
  let ?rest = "t @ concat (map (\<lambda>(sep, t). sep @ t) body)"
  have "\<not> is_ws (hd ?rest)" using wf(3) t by (cases t) auto
  then have "split_ws (t0 @ sep @ ?rest) = t0 # split_ws ?rest"
    by (intro split_ws_token Cons.prems(2) wf(1,2)) simp
  then show ?case using Cons.IH [OF wf' t] by (simp add: p)
qed

lemma split_ws_p3_text:
  assumes "well_formed_body body"
  shows "split_ws (p3_text W H body) =
           [lit ''P3'', decimal W, decimal H, lit ''255''] @ map snd body"
proof -
  let ?body = "concat (map (\<lambda>(sep, t). sep @ t) body)"
  have nws: "\<forall>c\<in>set (decimal n). \<not> is_ws c" for n
    using decimal_digits [of n] by (auto simp: list_all_iff is_digit_not_ws)
  have hd_dec: "\<not> is_ws (hd (decimal n @ s))" for n s
    using nws [of n] decimal_not_Nil [of n] by (cases "decimal n") auto
  have p3: "\<forall>c\<in>set (lit ''P3''). \<not> is_ws c" and m: "\<forall>c\<in>set (lit ''255''). \<not> is_ws c"
    by (simp_all add: lit_def is_ws_def)
  have sp: "lit '' '' \<noteq> []" "list_all is_ws (lit '' '')" by (simp_all add: lit_def is_ws_def)
  have shape: "p3_text W H body =
      lit ''P3'' @ lit '' '' @ (decimal W @ lit '' '' @ (decimal H @ lit '' '' @ (lit ''255'' @ ?body)))"
    by (simp add: p3_text_def lit_def)
  have 1: "split_ws (lit ''255'' @ ?body) = lit ''255'' # map snd body"
    by (rule split_ws_body [OF assms m])
  have 2: "split_ws (decimal H @ lit '' '' @ (lit ''255'' @ ?body)) =
             decimal H # split_ws (lit ''255'' @ ?body)"
    by (intro split_ws_token nws sp) (simp add: lit_def is_ws_def)
  have 3: "split_ws (decimal W @ lit '' '' @ (decimal H @ lit '' '' @ (lit ''255'' @ ?body))) =
             decimal W # split_ws (decimal H @ lit '' '' @ (lit ''255'' @ ?body))"
    by (intro split_ws_token nws sp) (simp add: hd_dec)
  have 4: "split_ws (lit ''P3'' @ lit '' '' @
              (decimal W @ lit '' '' @ (decimal H @ lit '' '' @ (lit ''255'' @ ?body)))) =
             lit ''P3'' # split_ws (decimal W @ lit '' '' @ (decimal H @ lit '' '' @ (lit ''255'' @ ?body)))"
    by (intro split_ws_token p3 sp) (simp add: hd_dec)
  show ?thesis unfolding shape by (simp only: 1 2 3 4) simp
qed

lemma sample_values:
  assumes "well_formed_body body"
  shows "map ToUint8 (map Number (map snd body)) = map (\<lambda>(sep, t). of_nat (digits_value 10 t)) body"
  using assms by (induction body) (auto simp: well_formed_body_def sample_value)

lemma p3_text_prefix: "\<exists>rest. p3_text W H body = 80 # 51 # 32 # rest"
  by (simp add: p3_text_def lit_def)

lemma p3_empty_image_rejected:
  "parsePPMP3 (ascii ''P3 0 0 255'') = Inl PixelDataSizeMismatch"
proof -
  have hl: "split_ws (decode (ascii ''P3 0 0 255'')) = [lit ''P3'', lit ''0'', lit ''0'', lit ''255'']"
    by (simp add: eval_text)
  have p: "parseInt (Some (lit ''0'')) = Fin 0" "parseInt (Some (lit ''255'')) = Fin 255"
    by (simp_all add: eval_number lit_def is_ws_def)
  show ?thesis
    unfolding parsePPMP3_def Let_def hl
    by (simp add: parseHeaderAttributes_def item_def p split_ws_Nil fl_0 strict_ne_def)
qed

section \<open>What the size check compares\<close>

text \<open>
  The extent of the size check of the two extractors. A buffer that decodes as the text
  \<^verbatim>\<open>P3 W H 255\<close> (decimal numerals of positive \<open>W\<close> and \<open>H\<close>, single spaces) followed by
  exactly \<open>W * H * 3\<close> tokens of decimal digits with values from 0 to 255, each preceded
  by a run of whitespace and the last one ending the text, is decoded to those values by
  \<^verbatim>\<open>parsePPMP3\<close> and \<^verbatim>\<open>parsePPM\<close>.
\<close>

lemma p3_unterminated_round_trip:
  assumes "decode data = p3_text W H body" and "well_formed_body body"
    and "length body = W * H * 3" and "0 < W" and "0 < H" and "W * H * 3 < 2 ^ 53"
  shows "parsePPMP3 data =
           Inr \<lparr>width = Fin (of_nat W), height = Fin (of_nat H),
                pixelData = map (\<lambda>(sep, t). of_nat (digits_value 10 t)) body,
                maxColorValue = Fin 255, format = P3\<rparr> \<and>
         parsePPM data = parsePPMP3 data \<and>
         (\<forall>i<length body.
            unat (map (\<lambda>(sep, t). of_nat (digits_value 10 t) :: u8) body ! i) =
              digits_value 10 (snd (body ! i)))"
proof (intro conjI allI impI)
  let ?toks = "map snd body"
  have hl: "text_tokens data = lit ''P3'' # decimal W # decimal H # lit ''255'' # ?toks"
    using split_ws_p3_text [OF assms(2), of W H] by (simp add: assms(1))
  have items: "item (text_tokens data) 0 = Some (lit ''P3'')"
    "item (text_tokens data) 1 = Some (decimal W)"
    "item (text_tokens data) 2 = Some (decimal H)"
    "item (text_tokens data) 3 = Some (lit ''255'')"
    by (simp_all add: hl item_def)
  have n: "W * H * 3 \<le> 2 ^ 53" using assms(6) by simp
  have "W \<le> W * H * 3" "H \<le> W * H * 3" using assms(4,5) by simp_all
  then have "W \<le> 2 ^ 53" "H \<le> 2 ^ 53" using n by linarith+
  then have w: "parseInt (Some (decimal W)) = Fin (of_nat W)"
    and h: "parseInt (Some (decimal H)) = Fin (of_nat H)"
    by (simp_all add: parseInt_digits decimal_not_Nil decimal_digits digits_value_decimal
        fl_nat_exact)
  have m: "parseInt (Some (lit ''255'')) = Fin 255"
    by (simp add: eval_number lit_def is_ws_def)
  have toks: "drop 4 (text_tokens data) = ?toks" by (simp add: hl)
  have "?toks \<noteq> []" using assms(3,4,5) by auto
  then have re: "split_ws (join (lit ''\<newline>'') (drop 4 (text_tokens data))) = ?toks"
    using resplit_drop4 [of "decode data"] by (simp add: toks)
  have size: "\<not> strict_ne (Fin (of_nat (length ?toks)))
                 (jsmul (jsmul (Fin (of_nat W)) (Fin (of_nat H))) (Fin 3))"
    unfolding strict_ne_def size_exact [OF n] by (simp add: assms(3))
  show "parsePPMP3 data =
           Inr \<lparr>width = Fin (of_nat W), height = Fin (of_nat H),
                pixelData = map (\<lambda>(sep, t). of_nat (digits_value 10 t)) body,
                maxColorValue = Fin 255, format = P3\<rparr>"
  proof -
    have "parsePPMP3 data =
        (if strict_ne (Fin (of_nat (length (map Number ?toks))))
              (jsmul (jsmul (Fin (of_nat W)) (Fin (of_nat H))) (Fin 3))
         then Inl PixelDataSizeMismatch
         else Inr \<lparr>width = Fin (of_nat W), height = Fin (of_nat H),
                pixelData = map ToUint8 (map Number ?toks),
                maxColorValue = Fin 255, format = P3\<rparr>)"
      unfolding parsePPMP3_def Let_def parseHeaderAttributes_ok [OF items(4)] items w h m re
      by simp
    then show ?thesis
      using size by (simp only: length_map sample_values [OF assms(2)] if_False)
  qed
  from p3_text_prefix [of W H body] obtain rest where "decode data = 80 # 51 # 32 # rest"
    unfolding assms(1) by blast
  then have "item (prefix_tokens data) 0 = Some (lit ''P3'')"
    by (rule decode_P3_prefix)
  then show "parsePPM data = parsePPMP3 data" by (rule parsePPM_P3)
next
  fix i assume i: "i < length body"
  obtain sep t where p: "body ! i = (sep, t)" by (cases "body ! i")
  then have "(sep, t) \<in> set body" using i by (metis nth_mem)
  then have "digits_value 10 t \<le> 255" using assms(2) by (auto simp: well_formed_body_def)
  then show "unat (map (\<lambda>(sep, t). of_nat (digits_value 10 t) :: u8) body ! i) =
      digits_value 10 (snd (body ! i))"
    using i by (simp add: p unat_of_nat)
qed

lemma p3_unterminated_round_trip_example:
  "decode (ascii ''P3 1 1 255\<newline>255  007 0'') =
     p3_text 1 1 [(lit ''\<newline>'', lit ''255''), (lit ''  '', lit ''007''), (lit '' '', lit ''0'')] \<and>
   well_formed_body
     [(lit ''\<newline>'', lit ''255''), (lit ''  '', lit ''007''), (lit '' '', lit ''0'')] \<and>
   parsePPMP3 (ascii ''P3 1 1 255\<newline>255  007 0'') =
     Inr \<lparr>width = Fin 1, height = Fin 1, pixelData = [255, 7, 0], maxColorValue = Fin 255,
          format = P3\<rparr> \<and>
   parsePPM (ascii ''P3 1 1 255\<newline>255  007 0'') =
     Inr \<lparr>width = Fin 1, height = Fin 1, pixelData = [255, 7, 0], maxColorValue = Fin 255,
          format = P3\<rparr>"
proof -
  let ?d = "ascii ''P3 1 1 255\<newline>255  007 0''"
  let ?body = "[(lit ''\<newline>'', lit ''255''), (lit ''  '', lit ''007''), (lit '' '', lit ''0'')]"
  have 1: "decode ?d = p3_text 1 1 ?body"
    by (simp add: decode_ascii p3_text_def lit_def decimal.simps)
  have 2: "well_formed_body ?body"
    by (simp add: well_formed_body_def lit_def is_ws_def is_digit_def digits_value_def
        digit_val_def)
  have 3: "length ?body = 1 * 1 * 3" by simp
  have v: "map (\<lambda>(sep, t). of_nat (digits_value 10 t) :: u8) ?body = [255, 7, 0]"
    by (simp add: lit_def digits_value_def digit_val_def)
  from p3_unterminated_round_trip [OF 1 2 3]
  have "parsePPMP3 ?d =
      Inr \<lparr>width = Fin 1, height = Fin 1, pixelData = [255, 7, 0], maxColorValue = Fin 255,
           format = P3\<rparr> \<and> parsePPM ?d = parsePPMP3 ?d"
    unfolding v by simp
  then show ?thesis using 1 2 by simp
qed

text \<open>
  The length that \<^verbatim>\<open>parsePPMP6\<close> compares with \<^verbatim>\<open>width * height * 3\<close> is that of the buffer
  from the computed offset on; the length that \<^verbatim>\<open>parsePPMP3\<close> compares is the number of
  strings after the first four that splitting at whitespace yields, an empty last string
  included. When that length differs from the product the extractor returns no image, and
  once the depth and format checks have passed it fails with the size-mismatch error.
\<close>

lemma size_check:
  "(strict_ne (Fin (of_nat (length (P6_payload data)))) (declared_size (prefix_tokens data)) \<longrightarrow>
      (\<forall>img. parsePPMP6 data \<noteq> Inr img) \<and>
      (item (prefix_tokens data) 3 = Some (lit ''255'') \<and>
       item (prefix_tokens data) 0 = Some (lit ''P6'') \<longrightarrow>
         parsePPMP6 data = Inl PixelDataSizeMismatch)) \<and>
   (item (prefix_tokens data) 3 = Some (lit ''255'') \<and>
    item (prefix_tokens data) 0 = Some (lit ''P6'') \<and>
    length (P6_payload data) < 2 ^ 53 \<and>
    \<not> (\<exists>w h. parseInt (item (prefix_tokens data) 1) = Fin (of_int w) \<and>
             parseInt (item (prefix_tokens data) 2) = Fin (of_int h) \<and>
             w * h * 3 = int (length (P6_payload data))) \<longrightarrow>
      parsePPMP6 data = Inl PixelDataSizeMismatch) \<and>
   (strict_ne (Fin (of_nat (length (drop 4 (text_tokens data)))))
      (declared_size (text_tokens data)) \<longrightarrow>
      (\<forall>img. parsePPMP3 data \<noteq> Inr img) \<and>
      (item (text_tokens data) 3 = Some (lit ''255'') \<and>
       item (text_tokens data) 0 = Some (lit ''P3'') \<longrightarrow>
         parsePPMP3 data = Inl PixelDataSizeMismatch)) \<and>
   (item (text_tokens data) 3 = Some (lit ''255'') \<and>
    item (text_tokens data) 0 = Some (lit ''P3'') \<and>
    length (drop 4 (text_tokens data)) < 2 ^ 53 \<and>
    \<not> (\<exists>w h. parseInt (item (text_tokens data) 1) = Fin (of_int w) \<and>
             parseInt (item (text_tokens data) 2) = Fin (of_int h) \<and>
             w * h * 3 = int (length (drop 4 (text_tokens data)))) \<longrightarrow>
      parsePPMP3 data = Inl PixelDataSizeMismatch)"
proof (intro conjI impI allI)
  assume "strict_ne (Fin (of_nat (length (P6_payload data)))) (declared_size (prefix_tokens data))"
  then show "parsePPMP6 data \<noteq> Inr img" for img
    by (rule parsePPMP6_no_image)
next
  assume "strict_ne (Fin (of_nat (length (P6_payload data)))) (declared_size (prefix_tokens data))"
    and "item (prefix_tokens data) 3 = Some (lit ''255'') \<and>
         item (prefix_tokens data) 0 = Some (lit ''P6'')"
  then show "parsePPMP6 data = Inl PixelDataSizeMismatch"
    by (intro parsePPMP6_mismatch) simp_all
next
  assume a: "item (prefix_tokens data) 3 = Some (lit ''255'') \<and>
    item (prefix_tokens data) 0 = Some (lit ''P6'') \<and>
    length (P6_payload data) < 2 ^ 53 \<and>
    \<not> (\<exists>w h. parseInt (item (prefix_tokens data) 1) = Fin (of_int w) \<and>
             parseInt (item (prefix_tokens data) 2) = Fin (of_int h) \<and>
             w * h * 3 = int (length (P6_payload data)))"
  show "parsePPMP6 data = Inl PixelDataSizeMismatch"
  proof (rule parsePPMP6_mismatch)
    show "strict_ne (Fin (of_nat (length (P6_payload data)))) (declared_size (prefix_tokens data))"
      using a by (intro size_mismatch_exact integral_parseInt) simp_all
  qed (use a in simp_all)
next
  assume "strict_ne (Fin (of_nat (length (drop 4 (text_tokens data)))))
      (declared_size (text_tokens data))"
  then show "parsePPMP3 data \<noteq> Inr img" for img
    by (rule parsePPMP3_no_image)
next
  assume "strict_ne (Fin (of_nat (length (drop 4 (text_tokens data)))))
      (declared_size (text_tokens data))"
    and "item (text_tokens data) 3 = Some (lit ''255'') \<and>
         item (text_tokens data) 0 = Some (lit ''P3'')"
  then show "parsePPMP3 data = Inl PixelDataSizeMismatch"
    by (intro parsePPMP3_mismatch) simp_all
next
  assume a: "item (text_tokens data) 3 = Some (lit ''255'') \<and>
    item (text_tokens data) 0 = Some (lit ''P3'') \<and>
    length (drop 4 (text_tokens data)) < 2 ^ 53 \<and>
    \<not> (\<exists>w h. parseInt (item (text_tokens data) 1) = Fin (of_int w) \<and>
             parseInt (item (text_tokens data) 2) = Fin (of_int h) \<and>
             w * h * 3 = int (length (drop 4 (text_tokens data))))"
  show "parsePPMP3 data = Inl PixelDataSizeMismatch"
  proof (rule parsePPMP3_mismatch)
    show "strict_ne (Fin (of_nat (length (drop 4 (text_tokens data)))))
        (declared_size (text_tokens data))"
      using a by (intro size_mismatch_exact integral_parseInt) simp_all
  qed (use a in simp_all)
qed

lemma size_check_example:
  "item (prefix_tokens (ascii ''P6 2 1 255 abcde'')) 3 = Some (lit ''255'') \<and>
   item (prefix_tokens (ascii ''P6 2 1 255 abcde'')) 0 = Some (lit ''P6'') \<and>
   parseInt (item (prefix_tokens (ascii ''P6 2 1 255 abcde'')) 1) = Fin 2 \<and>
   parseInt (item (prefix_tokens (ascii ''P6 2 1 255 abcde'')) 2) = Fin 1 \<and>
   subarray (ascii ''P6 2 1 255 abcde'')
     (indexOf (decode (take 20 (ascii ''P6 2 1 255 abcde''))) (lit ''255'') + 4) = ascii ''abcde'' \<and>
   parsePPMP6 (ascii ''P6 2 1 255 abcde'') = Inl PixelDataSizeMismatch \<and>
   item (text_tokens (ascii ''P3 1 1 255 1 2'')) 3 = Some (lit ''255'') \<and>
   item (text_tokens (ascii ''P3 1 1 255 1 2'')) 0 = Some (lit ''P3'') \<and>
   parseInt (item (text_tokens (ascii ''P3 1 1 255 1 2'')) 1) = Fin 1 \<and>
   parseInt (item (text_tokens (ascii ''P3 1 1 255 1 2'')) 2) = Fin 1 \<and>
   drop 4 (text_tokens (ascii ''P3 1 1 255 1 2'')) = [lit ''1'', lit ''2''] \<and>
   parsePPMP3 (ascii ''P3 1 1 255 1 2'') = Inl PixelDataSizeMismatch"
proof -
  let ?a = "ascii ''P6 2 1 255 abcde''"
  let ?b = "ascii ''P3 1 1 255 1 2''"
  have ta: "take 20 ?a = ?a" by (simp add: ascii_def)
  have ha: "text_tokens ?a = [lit ''P6'', lit ''2'', lit ''1'', lit ''255'', lit ''abcde'']"
    by (simp add: eval_text)
  have ia: "indexOf (decode ?a) (lit ''255'') = 7"
    by (simp add: decode_ascii indexOf_def lit_def)
  have sa: "subarray ?a (7 + 4) = ascii ''abcde''"
    by (simp add: subarray_def ascii_def)
  have la: "length (ascii ''abcde'') = 5" by (simp add: ascii_def)
  have hb: "text_tokens ?b = [lit ''P3'', lit ''1'', lit ''1'', lit ''255'', lit ''1'', lit ''2'']"
    by (simp add: eval_text)
  have p2: "parseInt (Some (lit ''2'')) = Fin 2" and p1: "parseInt (Some (lit ''1'')) = Fin 1"
    by (simp_all add: eval_number lit_def is_ws_def)
  have m1: "jsmul (jsmul (Fin 2) (Fin 1)) (Fin 3) = Fin 6"
    and m2: "jsmul (jsmul (Fin 1) (Fin 1)) (Fin 3) = Fin 3"
    by (simp_all add: fl_numeral fl_1)
  have "parsePPMP6 ?a = Inl PixelDataSizeMismatch \<and> parsePPMP3 ?b = Inl PixelDataSizeMismatch"
    using size_check [of ?a] size_check [of ?b]
    unfolding ta ha hb ia sa la
    by (simp add: item_def p1 p2 m1 m2 strict_ne_def)
  then show ?thesis
    unfolding ta ha hb ia sa by (simp add: item_def p1 p2)
qed

section \<open>The claims\<close>

text \<open>
  Claim C1, at a failing input. The buffer is \<^verbatim>\<open>P6 255 1 255\<close>, one newline and exactly
  \<open>255 * 1 * 3\<close> payload bytes. The text \<^verbatim>\<open>255\<close> first occurs in the width, at index 3, so the
  payload is taken from offset 7; it then has 771 bytes instead of 765 and both
  \<^verbatim>\<open>parsePPMP6\<close> and \<^verbatim>\<open>parsePPM\<close> fail with the size-mismatch error.
\<close>

theorem p6_width_255_rejected:
  "length (replicate 765 (0::u8)) = 255 * 1 * 3 \<and>
   indexOf (decode (take 20 (ascii ''P6 255 1 255\<newline>'' @ replicate 765 0))) (lit ''255'') = 3 \<and>
   length (subarray (ascii ''P6 255 1 255\<newline>'' @ replicate 765 0) (3 + 4)) = 771 \<and>
   parsePPMP6 (ascii ''P6 255 1 255\<newline>'' @ replicate 765 0) = Inl PixelDataSizeMismatch \<and>
   parsePPM (ascii ''P6 255 1 255\<newline>'' @ replicate 765 0) = Inl PixelDataSizeMismatch"
proof -
  let ?d = "ascii ''P6 255 1 255\<newline>'' @ replicate 765 (0::u8)"
  have t: "take 20 ?d = ascii ''P6 255 1 255\<newline>'' @ replicate 7 0"
    by (simp add: ascii_def)
  have h: "decode (take 20 ?d) = lit ''P6 255 1 255\<newline>'' @ replicate 7 0"
    unfolding t by (subst decode_ascii_bytes) (simp_all add: ascii_def lit_def list_all_iff)
  have z: "\<not> is_ws 0" by (simp add: is_ws_def)
  have hl: "split_ws (lit ''P6 255 1 255\<newline>'' @ replicate 7 0) =
      [lit ''P6'', lit ''255'', lit ''1'', lit ''255'', replicate 7 0]"
    by (simp add: lit_def split_ws_Cons is_ws_def split_ws_nws)
  have ix: "indexOf (lit ''P6 255 1 255\<newline>'' @ replicate 7 0) (lit ''255'') = 3"
    by (simp add: indexOf_def lit_def)
  have p: "parseInt (Some (lit ''1'')) = Fin 1" "parseInt (Some (lit ''255'')) = Fin 255"
    by (simp_all add: eval_number lit_def is_ws_def)
  have len: "length (subarray ?d 7) = 771"
    by (simp add: subarray_def ascii_def)
  have p6: "parsePPMP6 ?d = Inl PixelDataSizeMismatch"
    unfolding parsePPMP6_def Let_def h hl ix
    by (simp add: parseHeaderAttributes_def item_def p len fl_numeral strict_ne_def)
  have "item (prefix_tokens ?d) 0 = Some (lit ''P6'')"
    unfolding h hl by (simp add: item_def)
  then have "parsePPM ?d = parsePPMP6 ?d" by (rule parsePPM_P6)
  then show ?thesis using p6 len ix unfolding h by simp
qed

text \<open>
  Claim C2, at a failing input. The buffer is the plain PPM file of one pixel with the lines
  \<^verbatim>\<open>P3\<close>, \<^verbatim>\<open>1 1\<close>, \<^verbatim>\<open>255\<close> and \<^verbatim>\<open>1 2 3\<close>, each ended by a newline: the header
  and exactly \<open>1 * 1 * 3\<close> decimal tokens. Splitting at whitespace leaves an empty string
  after the final newline, which \<^verbatim>\<open>parsePPMP3\<close> counts as a fourth sample, so
  \<^verbatim>\<open>parsePPMP3\<close> and \<^verbatim>\<open>parsePPM\<close> fail with the size-mismatch error. The same file without
  its final newline is decoded to the samples 1, 2, 3.
\<close>

theorem p3_final_newline_rejected:
  "text_tokens (ascii ''P3\<newline>1 1\<newline>255\<newline>1 2 3\<newline>'') =
     [lit ''P3'', lit ''1'', lit ''1'', lit ''255'', lit ''1'', lit ''2'', lit ''3'', lit ''''] \<and>
   parsePPMP3 (ascii ''P3\<newline>1 1\<newline>255\<newline>1 2 3\<newline>'') = Inl PixelDataSizeMismatch \<and>
   parsePPM (ascii ''P3\<newline>1 1\<newline>255\<newline>1 2 3\<newline>'') = Inl PixelDataSizeMismatch \<and>
   parsePPM (ascii ''P3\<newline>1 1\<newline>255\<newline>1 2 3'') =
     Inr \<lparr>width = Fin 1, height = Fin 1, pixelData = [1, 2, 3], maxColorValue = Fin 255,
          format = P3\<rparr>"
proof -
  let ?d = "ascii ''P3\<newline>1 1\<newline>255\<newline>1 2 3\<newline>''"
  let ?e = "ascii ''P3\<newline>1 1\<newline>255\<newline>1 2 3''"
  have hd: "text_tokens ?d =
      [lit ''P3'', lit ''1'', lit ''1'', lit ''255'', lit ''1'', lit ''2'', lit ''3'', []]"
    by (simp add: eval_text)
  have he: "text_tokens ?e =
      [lit ''P3'', lit ''1'', lit ''1'', lit ''255'', lit ''1'', lit ''2'', lit ''3'']"
    by (simp add: eval_text)
  have td: "take 20 ?d = ?d" and te: "take 20 ?e = ?e" by (simp_all add: ascii_def)
  have p: "parseInt (Some (lit ''1'')) = Fin 1" "parseInt (Some (lit ''255'')) = Fin 255"
    by (simp_all add: eval_number lit_def is_ws_def)
  have n: "Number (lit ''1'') = Fin 1" "Number (lit ''2'') = Fin 2" "Number (lit ''3'') = Fin 3"
    by (simp_all add: eval_Number eval_number lit_def is_ws_def)
  have sd: "split_ws (join (lit ''\<newline>'') [lit ''1'', lit ''2'', lit ''3'', []]) =
      [lit ''1'', lit ''2'', lit ''3'', []]"
    and se: "split_ws (join (lit ''\<newline>'') [lit ''1'', lit ''2'', lit ''3'']) =
      [lit ''1'', lit ''2'', lit ''3'']"
    by (simp_all add: lit_def split_ws_Cons split_ws_Nil is_ws_def)
  have 1: "parsePPMP3 ?d = Inl PixelDataSizeMismatch"
    unfolding parsePPMP3_def Let_def hd
    by (simp add: parseHeaderAttributes_def item_def p sd fl_1 fl_numeral strict_ne_def
        del: join.simps)
  have 2: "parsePPMP3 ?e =
      Inr \<lparr>width = Fin 1, height = Fin 1, pixelData = [1, 2, 3], maxColorValue = Fin 255,
           format = P3\<rparr>"
    unfolding parsePPMP3_def Let_def he
    by (simp add: parseHeaderAttributes_def item_def p se n fl_1 fl_numeral strict_ne_def
        trunc_int_numeral del: join.simps)
  have "item (prefix_tokens ?d) 0 = Some (lit ''P3'')"
    unfolding td hd by (simp add: item_def)
  then have 3: "parsePPM ?d = parsePPMP3 ?d" by (rule parsePPM_P3)
  have "item (prefix_tokens ?e) 0 = Some (lit ''P3'')"
    unfolding te he by (simp add: item_def)
  then have 4: "parsePPM ?e = parsePPMP3 ?e" by (rule parsePPM_P3)
  show ?thesis using hd 1 2 3 4 by (simp add: lit_def)
qed

text \<open>
  Claim C3. Whenever \<^verbatim>\<open>parsePPM\<close>, \<^verbatim>\<open>parsePPMP3\<close> or \<^verbatim>\<open>parsePPMP6\<close> returns an image, the
  length of its pixel data equals \<^verbatim>\<open>width * height * 3\<close> as the program computes it; and
  since the length of a typed array is below \<open>2 ^ 53\<close>, width and height are then integers
  whose exact product with 3 is that length.
\<close>

theorem pixel_data_length:
  assumes "parsePPM data = Inr img \<or> parsePPMP3 data = Inr img \<or> parsePPMP6 data = Inr img"
  shows "jsmul (jsmul (width img) (height img)) (Fin 3) = Fin (of_nat (length (pixelData img))) \<and>
         (length (pixelData img) < 2 ^ 53 \<longrightarrow>
            (\<exists>w h. width img = Fin (of_int w) \<and> height img = Fin (of_int h) \<and>
                   w * h * 3 = int (length (pixelData img))))"
proof -
  from assms have "parsePPMP6 data = Inr img \<or> parsePPMP3 data = Inr img"
    using parsePPM_Inr [of data img] by blast
  then show ?thesis
  proof
    assume "parsePPMP6 data = Inr img"
    then show ?thesis by (rule size_invariant_P6)
  next
    assume "parsePPMP3 data = Inr img"
    then show ?thesis by (rule size_invariant_P3)
  qed
qed

theorem pixel_data_length_witness:
  "parsePPM (ascii ''P6 2 1 255 abcdef'') =
     Inr \<lparr>width = Fin 2, height = Fin 1, pixelData = ascii ''abcdef'', maxColorValue = Fin 255,
          format = P6\<rparr> \<and>
   jsmul (jsmul (Fin 2) (Fin 1)) (Fin 3) = Fin (of_nat (length (ascii ''abcdef''))) \<and>
   length (ascii ''abcdef'') < 2 ^ 53 \<and>
   (\<exists>w h. Fin 2 = Fin (of_int w) \<and> Fin 1 = Fin (of_int h) \<and>
          w * h * 3 = int (length (ascii ''abcdef'')))"
proof -
  have small: "length (ascii ''abcdef'') < 2 ^ 53" by (simp add: ascii_def)
  from pixel_data_length [of "ascii ''P6 2 1 255 abcdef''", OF disjI1, OF parsePPM_example]
  show ?thesis using small parsePPM_example by simp
qed

text \<open>
  Claim C4, at a failing input. The buffer is the plain PPM file with the lines \<^verbatim>\<open>P3\<close>,
  \<^verbatim>\<open>1 1\<close>, \<^verbatim>\<open>255\<close> and \<^verbatim>\<open>1 2\<close>, each ended by a newline: it declares one pixel and holds
  two pixel-value tokens instead of three. The empty string that splitting leaves after the
  final newline is counted as a third sample and converted to 0, so \<^verbatim>\<open>parsePPMP3\<close> and
  \<^verbatim>\<open>parsePPM\<close> return an image with the pixel data 1, 2, 0 instead of failing. The same file
  without its final newline, and the binary file with two payload bytes for one pixel, fail
  with the size-mismatch error.
\<close>

theorem p3_short_payload_padded:
  "text_tokens (ascii ''P3\<newline>1 1\<newline>255\<newline>1 2\<newline>'') =
     [lit ''P3'', lit ''1'', lit ''1'', lit ''255'', lit ''1'', lit ''2'', lit ''''] \<and>
   parsePPMP3 (ascii ''P3\<newline>1 1\<newline>255\<newline>1 2\<newline>'') =
     Inr \<lparr>width = Fin 1, height = Fin 1, pixelData = [1, 2, 0], maxColorValue = Fin 255,
          format = P3\<rparr> \<and>
   parsePPM (ascii ''P3\<newline>1 1\<newline>255\<newline>1 2\<newline>'') =
     Inr \<lparr>width = Fin 1, height = Fin 1, pixelData = [1, 2, 0], maxColorValue = Fin 255,
          format = P3\<rparr> \<and>
   parsePPM (ascii ''P3\<newline>1 1\<newline>255\<newline>1 2'') = Inl PixelDataSizeMismatch \<and>
   parsePPM (ascii ''P6\<newline>1 1\<newline>255\<newline>ab'') = Inl PixelDataSizeMismatch"
proof -
  let ?d = "ascii ''P3\<newline>1 1\<newline>255\<newline>1 2\<newline>''"
  let ?e = "ascii ''P3\<newline>1 1\<newline>255\<newline>1 2''"
  let ?f = "ascii ''P6\<newline>1 1\<newline>255\<newline>ab''"
  have hd: "text_tokens ?d = [lit ''P3'', lit ''1'', lit ''1'', lit ''255'', lit ''1'', lit ''2'', []]"
    by (simp add: eval_text)
  have he: "text_tokens ?e = [lit ''P3'', lit ''1'', lit ''1'', lit ''255'', lit ''1'', lit ''2'']"
    by (simp add: eval_text)
  have hf: "text_tokens ?f = [lit ''P6'', lit ''1'', lit ''1'', lit ''255'', lit ''ab'']"
    by (simp add: eval_text)
  have td: "take 20 ?d = ?d" and te: "take 20 ?e = ?e" and tf: "take 20 ?f = ?f"
    by (simp_all add: ascii_def)
  have p: "parseInt (Some (lit ''1'')) = Fin 1" "parseInt (Some (lit ''255'')) = Fin 255"
    by (simp_all add: eval_number lit_def is_ws_def)
  have n: "Number (lit ''1'') = Fin 1" "Number (lit ''2'') = Fin 2" "Number [] = Fin 0"
    by (simp_all add: eval_Number eval_number lit_def is_ws_def)
  have sd: "split_ws (join (lit ''\<newline>'') [lit ''1'', lit ''2'', []]) = [lit ''1'', lit ''2'', []]"
    and se: "split_ws (join (lit ''\<newline>'') [lit ''1'', lit ''2'']) = [lit ''1'', lit ''2'']"
    by (simp_all add: lit_def split_ws_Cons split_ws_Nil is_ws_def)
  have 1: "parsePPMP3 ?d =
      Inr \<lparr>width = Fin 1, height = Fin 1, pixelData = [1, 2, 0], maxColorValue = Fin 255,
           format = P3\<rparr>"
    unfolding parsePPMP3_def Let_def hd
    by (simp add: parseHeaderAttributes_def item_def p sd n fl_1 fl_numeral strict_ne_def
        trunc_int_numeral del: join.simps)
  have 2: "parsePPMP3 ?e = Inl PixelDataSizeMismatch"
    unfolding parsePPMP3_def Let_def he
    by (simp add: parseHeaderAttributes_def item_def p se fl_1 fl_numeral strict_ne_def
        del: join.simps)
  have ix: "indexOf (decode ?f) (lit ''255'') = 7"
    by (simp add: decode_ascii indexOf_def lit_def)
  have len: "length (subarray ?f 11) = 2"
    by (simp add: subarray_def ascii_def)
  have 3: "parsePPMP6 ?f = Inl PixelDataSizeMismatch"
    unfolding parsePPMP6_def Let_def tf hf ix
    by (simp add: parseHeaderAttributes_def item_def p len fl_1 fl_numeral strict_ne_def)
  have "item (prefix_tokens ?d) 0 = Some (lit ''P3'')"
    unfolding td hd by (simp add: item_def)
  then have 4: "parsePPM ?d = parsePPMP3 ?d" by (rule parsePPM_P3)
  have "item (prefix_tokens ?e) 0 = Some (lit ''P3'')"
    unfolding te he by (simp add: item_def)
  then have 5: "parsePPM ?e = parsePPMP3 ?e" by (rule parsePPM_P3)
  have "item (prefix_tokens ?f) 0 = Some (lit ''P6'')"
    unfolding tf hf by (simp add: item_def)
  then have 6: "parsePPM ?f = parsePPMP6 ?f" by (rule parsePPM_P6)
  show ?thesis using hd 1 2 3 4 5 6 by (simp add: lit_def)
qed




text \<open>
  Claim C6. The first token of the decoded 20-byte prefix always exists (it is empty for the
  empty buffer), and when it is neither \<^verbatim>\<open>P3\<close> nor \<^verbatim>\<open>P6\<close>, \<^verbatim>\<open>parsePPM\<close> fails with the
  unsupported-format error, whose message ends with that token. Each extractor makes the same
  check on its own: called directly on a buffer that passes its depth check and whose tag is
  not the one it handles, it fails with the unsupported-format error for that tag.
\<close>

theorem unsupported_format:
  "(\<exists>tok. item (prefix_tokens data) 0 = Some tok) \<and>
   (\<forall>tok. item (prefix_tokens data) 0 = Some tok \<and>
          tok \<noteq> lit ''P3'' \<and> tok \<noteq> lit ''P6'' \<longrightarrow>
          parsePPM data = Inl (UnsupportedFormat (Some tok)) \<and>
          message (UnsupportedFormat (Some tok)) = lit ''Unsupported PPM format: '' @ tok) \<and>
   parsePPM [] = Inl (UnsupportedFormat (Some [])) \<and>
   (item (prefix_tokens data) 3 = Some (lit ''255'') \<and>
    item (prefix_tokens data) 0 \<noteq> Some (lit ''P6'') \<longrightarrow>
      parsePPMP6 data = Inl (UnsupportedFormat (item (prefix_tokens data) 0))) \<and>
   (item (text_tokens data) 3 = Some (lit ''255'') \<and>
    item (text_tokens data) 0 \<noteq> Some (lit ''P3'') \<longrightarrow>
      parsePPMP3 data = Inl (UnsupportedFormat (item (text_tokens data) 0)))"
proof (intro conjI allI impI)
  show "\<exists>tok. item (prefix_tokens data) 0 = Some tok"
    by (simp add: item_split_ws_0)
next
  fix tok
  assume a: "item (prefix_tokens data) 0 = Some tok \<and>
             tok \<noteq> lit ''P3'' \<and> tok \<noteq> lit ''P6''"
  then show "parsePPM data = Inl (UnsupportedFormat (Some tok))"
    using parsePPM_other [of data] by simp
  show "message (UnsupportedFormat (Some tok)) = lit ''Unsupported PPM format: '' @ tok"
    by simp
next
  show "parsePPM [] = Inl (UnsupportedFormat (Some []))"
    by (simp add: parsePPM_def decode_Nil split_ws_Nil item_def lit_def)
next
  assume "item (prefix_tokens data) 3 = Some (lit ''255'') \<and>
          item (prefix_tokens data) 0 \<noteq> Some (lit ''P6'')"
  then show "parsePPMP6 data = Inl (UnsupportedFormat (item (prefix_tokens data) 0))"
    by (simp add: parsePPMP6_format)
next
  assume "item (text_tokens data) 3 = Some (lit ''255'') \<and>
          item (text_tokens data) 0 \<noteq> Some (lit ''P3'')"
  then show "parsePPMP3 data = Inl (UnsupportedFormat (item (text_tokens data) 0))"
    by (simp add: parsePPMP3_format)
qed

theorem unsupported_format_witness:
  "item (prefix_tokens (ascii ''P5 1 1 255 abc'')) 0 = Some (lit ''P5'') \<and>
   item (prefix_tokens (ascii ''P5 1 1 255 abc'')) 3 = Some (lit ''255'') \<and>
   item (text_tokens (ascii ''P5 1 1 255 abc'')) 0 = Some (lit ''P5'') \<and>
   item (text_tokens (ascii ''P5 1 1 255 abc'')) 3 = Some (lit ''255'') \<and>
   lit ''P5'' \<noteq> lit ''P3'' \<and> lit ''P5'' \<noteq> lit ''P6'' \<and>
   parsePPM (ascii ''P5 1 1 255 abc'') = Inl (UnsupportedFormat (Some (lit ''P5''))) \<and>
   parsePPMP6 (ascii ''P5 1 1 255 abc'') = Inl (UnsupportedFormat (Some (lit ''P5''))) \<and>
   parsePPMP3 (ascii ''P5 1 1 255 abc'') = Inl (UnsupportedFormat (Some (lit ''P5'')))"
proof -
  let ?d = "ascii ''P5 1 1 255 abc''"
  have t20: "take 20 ?d = ?d" by (simp add: ascii_def)
  have 0: "item (text_tokens ?d) 0 = Some (lit ''P5'')" by (simp add: eval_text)
  have 3: "item (text_tokens ?d) 3 = Some (lit ''255'')" by (simp add: eval_text)
  have ne: "lit ''P5'' \<noteq> lit ''P3'' \<and> lit ''P5'' \<noteq> lit ''P6''" by (simp add: lit_def)
  from unsupported_format [of ?d] show ?thesis
    unfolding t20 using 0 3 ne by simp
qed

text \<open>
  Claim C7. For every buffer that \<^verbatim>\<open>parsePPMP6\<close> accepts, the text \<^verbatim>\<open>255\<close> occurs in the
  decoded first 20 bytes, and the returned pixel data is the part of the buffer from the
  index of its first occurrence plus 4 up to the end.
\<close>

theorem p6_payload_offset:
  assumes "parsePPMP6 data = Inr img"
  shows "\<exists>i. indexOf (decode (take 20 data)) (lit ''255'') = int i \<and>
             take 3 (drop i (decode (take 20 data))) = lit ''255'' \<and>
             (\<forall>j<i. take 3 (drop j (decode (take 20 data))) \<noteq> lit ''255'') \<and>
             pixelData img = drop (i + 4) data"
proof -
  let ?h = "decode (take 20 data)"
  from assms obtain x where x: "parseHeaderAttributes (split_ws ?h) = Inr x"
    by (auto simp: parsePPMP6_def Let_def split: sum.splits)
  then have tok: "item (split_ws ?h) 3 = Some (lit ''255'')" by (rule parseHeaderAttributes_Inr)
  have ne: "lit ''255'' \<noteq> []" by (simp add: lit_def)
  have len: "length (lit ''255'') = 3" by (simp add: lit_def)
  from indexOf_token [OF tok ne] obtain i where
    i: "indexOf ?h (lit ''255'') = int i" "take 3 (drop i ?h) = lit ''255''"
       "\<forall>j<i. take 3 (drop j ?h) \<noteq> lit ''255''"
    unfolding len by blast
  have "pixelData img = subarray data (int i + 4)"
    using assms i(1)
    by (auto simp: parsePPMP6_def Let_def parseHeaderAttributes_ok [OF tok] split: if_splits)
  also have "\<dots> = drop (i + 4) data" by (simp add: subarray_nonneg nat_add_distrib)
  finally show ?thesis using i by blast
qed

theorem p6_payload_offset_witness:
  "parsePPMP6 (ascii ''P6 2 1 255 abcdef'') =
     Inr \<lparr>width = Fin 2, height = Fin 1, pixelData = ascii ''abcdef'', maxColorValue = Fin 255,
          format = P6\<rparr> \<and>
   indexOf (decode (take 20 (ascii ''P6 2 1 255 abcdef''))) (lit ''255'') = 7 \<and>
   ascii ''abcdef'' = drop (7 + 4) (ascii ''P6 2 1 255 abcdef'')"
proof -
  let ?d = "ascii ''P6 2 1 255 abcdef''"
  let ?img = "\<lparr>width = Fin 2, height = Fin 1, pixelData = ascii ''abcdef'', maxColorValue = Fin 255,
          format = P6\<rparr>"
  have h: "decode (take 20 ?d) = lit ''P6 2 1 255 abcdef''"
    by (simp add: take_ascii decode_ascii)
  have ix: "indexOf (lit ''P6 2 1 255 abcdef'') (lit ''255'') = 7"
    by (simp add: indexOf_def lit_def)
  have p: "parsePPMP6 ?d = Inr ?img"
    unfolding parsePPMP6_def h
    by (simp add: lit_def split_ws_Cons split_ws_Nil is_ws_def item_def parseHeaderAttributes_def
        eval_number indexOf_def subarray_def ascii_def)
  from p6_payload_offset [OF p] obtain i where
    "indexOf (decode (take 20 ?d)) (lit ''255'') = int i" and "pixelData ?img = drop (i + 4) ?d"
    by blast
  then show ?thesis using p h ix by simp
qed

text \<open>
  Claim C8, as amended. In \<^verbatim>\<open>parsePPMP3\<close> every token from the fifth onward is converted by
  \<^verbatim>\<open>Number\<close> and then by the \<^verbatim>\<open>Uint8Array\<close> conversion, and the results are the pixel data
  in token order. A token that is not a numeric literal (\<^verbatim>\<open>NaN\<close>) and an infinite value give 0;
  a finite value is truncated towards zero and reduced modulo 256, so an out-of-range value
  wraps around instead of becoming 0, and an integer from 0 to 255 is stored as it is. A token
  made of decimal digits denotes the double nearest to its base-10 value.
\<close>

theorem pixel_value_coercion:
  "(parsePPMP3 data = Inr img \<longrightarrow>
      pixelData img = map (\<lambda>t. ToUint8 (Number t)) (drop 4 (text_tokens data))) \<and>
   (Number t = NaN \<or> Number t = PInf \<or> Number t = NInf \<longrightarrow> ToUint8 (Number t) = 0) \<and>
   (\<forall>q. Number t = Fin q \<longrightarrow> uint (ToUint8 (Number t)) = trunc_int q mod 256) \<and>
   (\<forall>n. Number t = Fin (of_int n) \<and> 0 \<le> n \<and> n \<le> 255 \<longrightarrow> uint (ToUint8 (Number t)) = n) \<and>
   (t \<noteq> [] \<and> list_all is_digit t \<longrightarrow> Number t = fl (of_nat (digits_value 10 t)))"
proof (intro conjI allI impI)
  assume "parsePPMP3 data = Inr img"
  then show "pixelData img = map (\<lambda>t. ToUint8 (Number t)) (drop 4 (text_tokens data))"
    by (rule parsePPMP3_tokens(2))
next
  assume "Number t = NaN \<or> Number t = PInf \<or> Number t = NInf"
  then show "ToUint8 (Number t) = 0" by auto
next
  fix q assume "Number t = Fin q"
  then show "uint (ToUint8 (Number t)) = trunc_int q mod 256"
    by (simp add: uint_word_of_int)
next
  fix n :: int assume "Number t = Fin (of_int n) \<and> 0 \<le> n \<and> n \<le> 255"
  then show "uint (ToUint8 (Number t)) = n"
    by (simp add: uint_word_of_int trunc_int_of_int)
next
  assume "t \<noteq> [] \<and> list_all is_digit t"
  then show "Number t = fl (of_nat (digits_value 10 t))"
    by (simp add: Number_digits)
qed

theorem pixel_value_coercion_witness:
  "parsePPMP3 (ascii ''P3 2 1 255 7 -1 abc 0x10 256 1e2'') =
     Inr \<lparr>width = Fin 2, height = Fin 1, pixelData = [7, 255, 0, 16, 0, 100],
          maxColorValue = Fin 255, format = P3\<rparr> \<and>
   [7, 255, 0, 16, 0, 100] =
     map (\<lambda>t. ToUint8 (Number t))
       (drop 4 (text_tokens (ascii ''P3 2 1 255 7 -1 abc 0x10 256 1e2''))) \<and>
   drop 4 (text_tokens (ascii ''P3 2 1 255 7 -1 abc 0x10 256 1e2'')) =
     [lit ''7'', lit ''-1'', lit ''abc'', lit ''0x10'', lit ''256'', lit ''1e2''] \<and>
   Number (lit ''abc'') = NaN \<and> ToUint8 (Number (lit ''abc'')) = 0 \<and>
   Number (lit ''-1'') = Fin (- 1) \<and> uint (ToUint8 (Number (lit ''-1''))) = 255 \<and>
   Number (lit ''256'') = Fin 256 \<and> uint (ToUint8 (Number (lit ''256''))) = 0 \<and>
   Number (lit ''0x10'') = Fin 16 \<and> Number (lit ''1e2'') = Fin 100 \<and>
   Number (lit ''7'') = Fin 7 \<and> uint (ToUint8 (Number (lit ''7''))) = 7 \<and>
   Number (lit ''7'') = fl (of_nat (digits_value 10 (lit ''7'')))"
proof -
  let ?d = "ascii ''P3 2 1 255 7 -1 abc 0x10 256 1e2''"
  let ?img = "\<lparr>width = Fin 2, height = Fin 1, pixelData = [7, 255, 0, 16, 0, 100],
          maxColorValue = Fin 255, format = P3\<rparr>"
  have hl: "text_tokens ?d =
      [lit ''P3'', lit ''2'', lit ''1'', lit ''255'', lit ''7'', lit ''-1'', lit ''abc'',
       lit ''0x10'', lit ''256'', lit ''1e2'']"
    by (simp add: eval_text)
  have dr: "drop 4 (text_tokens ?d) =
      [lit ''7'', lit ''-1'', lit ''abc'', lit ''0x10'', lit ''256'', lit ''1e2'']"
    by (simp add: hl)
  have p1: "parseInt (Some (lit ''1'')) = Fin 1" and p2: "parseInt (Some (lit ''2'')) = Fin 2"
    and p255: "parseInt (Some (lit ''255'')) = Fin 255"
    by (simp_all add: eval_number lit_def is_ws_def)
  have n7: "Number (lit ''7'') = Fin 7" and nm1: "Number (lit ''-1'') = Fin (- 1)"
    and nabc: "Number (lit ''abc'') = NaN" and nhex: "Number (lit ''0x10'') = Fin 16"
    and n256: "Number (lit ''256'') = Fin 256" and nexp: "Number (lit ''1e2'') = Fin 100"
    by (simp_all add: eval_Number eval_number lit_def is_ws_def)
  have sp: "split_ws (join (lit ''\<newline>'')
        [lit ''7'', lit ''-1'', lit ''abc'', lit ''0x10'', lit ''256'', lit ''1e2'']) =
      [lit ''7'', lit ''-1'', lit ''abc'', lit ''0x10'', lit ''256'', lit ''1e2'']"
    by (simp add: lit_def split_ws_Cons split_ws_Nil is_ws_def)
  have p: "parsePPMP3 ?d = Inr ?img"
    unfolding parsePPMP3_def Let_def hl
    by (simp add: parseHeaderAttributes_def item_def p1 p2 p255 sp n7 nm1 nabc nhex n256 nexp
        fl_1 fl_numeral strict_ne_def trunc_int_numeral del: join.simps)
  have dg: "lit ''7'' \<noteq> [] \<and> list_all is_digit (lit ''7'')"
    by (simp add: lit_def is_digit_def)
  note abc = pixel_value_coercion [of ?d ?img "lit ''abc''"]
  note m1 = pixel_value_coercion [of ?d ?img "lit ''-1''"]
  note big = pixel_value_coercion [of ?d ?img "lit ''256''"]
  note seven = pixel_value_coercion [of ?d ?img "lit ''7''"]
  have a: "[7, 255, 0, 16, 0, 100] = map (\<lambda>t. ToUint8 (Number t)) (drop 4 (text_tokens ?d))"
    using abc p by simp
  have b: "ToUint8 (Number (lit ''abc'')) = 0" using abc nabc by blast
  have "uint (ToUint8 (Number (lit ''-1''))) = trunc_int (- 1) mod 256" using m1 nm1 by blast
  then have c: "uint (ToUint8 (Number (lit ''-1''))) = 255" by (simp add: trunc_int_numeral)
  have "uint (ToUint8 (Number (lit ''256''))) = trunc_int 256 mod 256" using big n256 by blast
  then have c': "uint (ToUint8 (Number (lit ''256''))) = 0" by (simp add: trunc_int_numeral)
  have "Number (lit ''7'') = Fin (of_int 7) \<and> (0::int) \<le> 7 \<and> (7::int) \<le> 255" by (simp add: n7)
  then have d: "uint (ToUint8 (Number (lit ''7''))) = 7" using seven by blast
  have e: "Number (lit ''7'') = fl (of_nat (digits_value 10 (lit ''7'')))" using seven dg by blast
  show ?thesis using p a dr nabc b nm1 c n256 c' nhex nexp n7 d e by blast
qed

theorem pixel_value_coercion_counterexample:
  "Number (lit ''300'') = Fin 300 \<and>
   ToUint8 (Number (lit ''300'')) = 44 \<and>
   ToUint8 (Number (lit ''300'')) \<noteq> 0 \<and>
   parsePPMP3 (ascii ''P3 1 1 255 300 0 0'') =
     Inr \<lparr>width = Fin 1, height = Fin 1, pixelData = [44, 0, 0], maxColorValue = Fin 255,
          format = P3\<rparr>"
proof -
  let ?d = "ascii ''P3 1 1 255 300 0 0''"
  have hl: "text_tokens ?d =
      [lit ''P3'', lit ''1'', lit ''1'', lit ''255'', lit ''300'', lit ''0'', lit ''0'']"
    by (simp add: eval_text)
  have p1: "parseInt (Some (lit ''1'')) = Fin 1" and p255: "parseInt (Some (lit ''255'')) = Fin 255"
    by (simp_all add: eval_number lit_def is_ws_def)
  have n300: "Number (lit ''300'') = Fin 300" and n0: "Number (lit ''0'') = Fin 0"
    by (simp_all add: eval_Number eval_number lit_def is_ws_def)
  have sp: "split_ws (join (lit ''\<newline>'') [lit ''300'', lit ''0'', lit ''0'']) =
      [lit ''300'', lit ''0'', lit ''0'']"
    by (simp add: lit_def split_ws_Cons split_ws_Nil is_ws_def)
  have u: "ToUint8 (Fin 300) = 44" by (simp add: trunc_int_numeral)
  have "parsePPMP3 ?d = Inr \<lparr>width = Fin 1, height = Fin 1, pixelData = [44, 0, 0],
      maxColorValue = Fin 255, format = P3\<rparr>"
    unfolding parsePPMP3_def Let_def hl
    by (simp add: parseHeaderAttributes_def item_def p1 p255 sp n300 n0 fl_1 fl_numeral
        strict_ne_def trunc_int_numeral del: join.simps)
  then show ?thesis by (simp add: n300 trunc_int_numeral)
qed

text \<open>
  Claim C9. For an image whose width is a natural number \<open>w\<close> (as for every decoded image of
  positive width; the pixel data is a typed array, so its length is at most \<open>2 ^ 53\<close>) and
  for natural coordinates \<open>x\<close> and \<open>y\<close>, \<^verbatim>\<open>getPixel(x, y)\<close> returns as \<^verbatim>\<open>r\<close>, \<^verbatim>\<open>g\<close>, \<^verbatim>\<open>b\<close> the
  elements of the pixel data at the offsets \<open>(y * w + x) * 3\<close>, \<open>+ 1\<close> and \<open>+ 2\<close>, each being
  \<^verbatim>\<open>undefined\<close> when its offset is past the end. For the 2 by 1 image with pixel data
  10, 20, 30, 40, 50, 60, \<^verbatim>\<open>getPixel(1, 0)\<close> is 40, 50, 60.
\<close>

theorem getPixel_offsets:
  "(width img = Fin (of_nat w) \<and> length (pixelData img) \<le> 2 ^ 53 \<longrightarrow>
      getPixel img (Fin (of_nat x)) (Fin (of_nat y)) =
        \<lparr>r = item (pixelData img) ((y * w + x) * 3),
         g = item (pixelData img) ((y * w + x) * 3 + 1),
         b = item (pixelData img) ((y * w + x) * 3 + 2)\<rparr>) \<and>
   (width img = Fin (of_nat w) \<and> length (pixelData img) \<le> 2 ^ 53 \<and>
    (y * w + x) * 3 + 2 < length (pixelData img) \<longrightarrow>
      getPixel img (Fin (of_nat x)) (Fin (of_nat y)) =
        \<lparr>r = Some (pixelData img ! ((y * w + x) * 3)),
         g = Some (pixelData img ! ((y * w + x) * 3 + 1)),
         b = Some (pixelData img ! ((y * w + x) * 3 + 2))\<rparr>) \<and>
   getPixel \<lparr>width = Fin 2, height = Fin 1, pixelData = [10, 20, 30, 40, 50, 60],
             maxColorValue = Fin 255, format = P6\<rparr> (Fin 1) (Fin 0) =
     \<lparr>r = Some 40, g = Some 50, b = Some 60\<rparr>"
proof (intro conjI impI)
  assume "width img = Fin (of_nat w) \<and> length (pixelData img) \<le> 2 ^ 53"
  then show "getPixel img (Fin (of_nat x)) (Fin (of_nat y)) =
        \<lparr>r = item (pixelData img) ((y * w + x) * 3),
         g = item (pixelData img) ((y * w + x) * 3 + 1),
         b = item (pixelData img) ((y * w + x) * 3 + 2)\<rparr>"
    by (simp add: getPixel_item)
next
  assume "width img = Fin (of_nat w) \<and> length (pixelData img) \<le> 2 ^ 53 \<and>
    (y * w + x) * 3 + 2 < length (pixelData img)"
  then show "getPixel img (Fin (of_nat x)) (Fin (of_nat y)) =
        \<lparr>r = Some (pixelData img ! ((y * w + x) * 3)),
         g = Some (pixelData img ! ((y * w + x) * 3 + 1)),
         b = Some (pixelData img ! ((y * w + x) * 3 + 2))\<rparr>"
    by (simp add: getPixel_item item_def)
next
  let ?img = "\<lparr>width = Fin 2, height = Fin 1, pixelData = [10, 20, 30, 40, 50, 60],
             maxColorValue = Fin 255, format = P6\<rparr>"
  have "getPixel ?img (Fin (of_nat 1)) (Fin (of_nat 0)) =
      \<lparr>r = item (pixelData ?img) ((0 * 2 + 1) * 3),
       g = item (pixelData ?img) ((0 * 2 + 1) * 3 + 1),
       b = item (pixelData ?img) ((0 * 2 + 1) * 3 + 2)\<rparr>"
    by (rule getPixel_item) simp_all
  then show "getPixel ?img (Fin 1) (Fin 0) = \<lparr>r = Some 40, g = Some 50, b = Some 60\<rparr>"
    by (simp add: item_def)
qed

theorem getPixel_offsets_witness:
  "parsePPMP6 (ascii ''P6 2 1 255 '' @ [10, 20, 30, 40, 50, 60]) =
     Inr \<lparr>width = Fin 2, height = Fin 1, pixelData = [10, 20, 30, 40, 50, 60],
          maxColorValue = Fin 255, format = P6\<rparr> \<and>
   getPixel \<lparr>width = Fin 2, height = Fin 1, pixelData = [10, 20, 30, 40, 50, 60],
             maxColorValue = Fin 255, format = P6\<rparr> (Fin (of_nat 1)) (Fin (of_nat 0)) =
     \<lparr>r = Some 40, g = Some 50, b = Some 60\<rparr> \<and>
   getPixel \<lparr>width = Fin 2, height = Fin 1, pixelData = [10, 20, 30, 40, 50, 60],
             maxColorValue = Fin 255, format = P6\<rparr> (Fin (of_nat 0)) (Fin (of_nat 1)) =
     \<lparr>r = None, g = None, b = None\<rparr>"
proof -
  let ?img = "\<lparr>width = Fin 2, height = Fin 1, pixelData = [10, 20, 30, 40, 50, 60],
             maxColorValue = Fin 255, format = P6\<rparr>"
  let ?d = "ascii ''P6 2 1 255 '' @ [10, 20, 30, 40, 50, 60]"
  have h: "decode (take 20 ?d) = lit ''P6 2 1 255 '' @ [10, 20, 30, 40, 50, 60]"
    by (simp add: ascii_def decode_def strip_bom_def utf16_units_def lit_def)
  have p: "parsePPMP6 ?d = Inr ?img"
    unfolding parsePPMP6_def Let_def h
    by (simp add: lit_def split_ws_Cons split_ws_Nil is_ws_def item_def parseHeaderAttributes_def
        eval_number indexOf_def subarray_def ascii_def)
  have w: "width ?img = Fin (of_nat 2) \<and> length (pixelData ?img) \<le> 2 ^ 53" by simp
  have "getPixel ?img (Fin (of_nat 1)) (Fin (of_nat 0)) =
          \<lparr>r = Some (pixelData ?img ! ((0 * 2 + 1) * 3)),
           g = Some (pixelData ?img ! ((0 * 2 + 1) * 3 + 1)),
           b = Some (pixelData ?img ! ((0 * 2 + 1) * 3 + 2))\<rparr>"
    using getPixel_offsets [of ?img 2 1 0] w by (simp add: item_def)
  moreover have "getPixel ?img (Fin (of_nat 0)) (Fin (of_nat 1)) =
          \<lparr>r = item (pixelData ?img) ((1 * 2 + 0) * 3),
           g = item (pixelData ?img) ((1 * 2 + 0) * 3 + 1),
           b = item (pixelData ?img) ((1 * 2 + 0) * 3 + 2)\<rparr>"
    using getPixel_offsets [of ?img 2 0 1] w by blast
  ultimately show ?thesis using p by (simp add: item_def)
qed



end
